theory Spec2Isabelle
  imports Main "HOL-Library.Word"
begin

unbundle bit_operations_syntax

section \<open>The upb encoder (upb/encode.c)\<close>

text \<open>
  The encoder writes a message backwards into a growable buffer. The buffer lives in
  the C heap and is named by three pointers (\<open>buf\<close>, \<open>ptr\<close>, \<open>limit\<close>); two of the
  functions below depend on which addresses these pointers hold, so the heap is an
  explicit store from addresses to bytes and the pointers are addresses (\<open>0\<close> is
  \<open>NULL\<close>). Sizes are natural numbers: \<open>size_t\<close> is taken wide enough for every size
  that occurs, and the one place where a \<open>size_t\<close> is computed from two pointers that
  need not point into the same block writes the wrap-around out
  (\<open>ptrdiff_to_size\<close>). The host is little-endian, as the source assumes.
\<close>

type_synonym byte = "8 word"
type_synonym heap = "nat \<Rightarrow> byte"

subsection \<open>Varint and zigzag\<close>

text \<open>The \<open>while (val)\<close> loop of \<open>upb_encode_varint\<close>: the bytes stored at
  \<open>buf[0]\<close>, \<open>buf[1]\<close>, ... in this order.\<close>

function varint_loop :: "64 word \<Rightarrow> byte list" where
  "varint_loop val =
     (if val = 0 then []
      else let byte = (ucast (val AND 0x7f) :: byte);
               val' = drop_bit 7 val;
               byte' = (if val' \<noteq> 0 then byte OR 0x80 else byte)
           in byte' # varint_loop val')"
  by pat_completeness auto
termination
proof (relation "measure unat")
  show "wf (measure unat)" by simp
next
  fix val :: "64 word" and x xa
  assume "val \<noteq> 0"
  then have "0 < unat val" by (simp add: unat_gt_0)
  then have "unat val div 128 < unat val" by simp
  then show "(xa, val) \<in> measure unat" if "xa = drop_bit 7 val"
    using that by (simp add: unat_drop_bit_eq drop_bit_eq_div unat_div)
qed

declare varint_loop.simps [simp del]

text \<open>\<open>upb_encode_varint(val, buf)\<close>: the bytes written to \<open>buf\<close>; the returned
  length is the length of this list.\<close>

definition upb_encode_varint :: "64 word \<Rightarrow> byte list" where
  "upb_encode_varint val = (if val < 128 then [ucast val] else varint_loop val)"

text \<open>\<open>(n << 1) ^ (n >> 31)\<close> on \<open>int32_t\<close>, the right shift arithmetic, the result
  read as \<open>uint32_t\<close>; and the 64-bit function.\<close>

definition upb_zzencode_32 :: "32 word \<Rightarrow> 32 word" where
  "upb_zzencode_32 n = push_bit 1 n XOR signed_drop_bit 31 n"

definition upb_zzencode_64 :: "64 word \<Rightarrow> 64 word" where
  "upb_zzencode_64 n = push_bit 1 n XOR signed_drop_bit 63 n"

text \<open>Modelled from the spec: the zigzag decoder is not part of encode.c (the decoder
  is an external collaborator); the spec only names it as the inverse of
  \<open>zigzagEncode32\<close>. This is the wire format's decoding, \<open>(n >> 1) ^ -(n & 1)\<close>
  with a logical right shift.\<close>

definition zigzagDecode32 :: "32 word \<Rightarrow> 32 word" where
  "zigzagDecode32 u = drop_bit 1 u XOR (- (u AND 1))"

definition zigzagDecode64 :: "64 word \<Rightarrow> 64 word" where
  "zigzagDecode64 u = drop_bit 1 u XOR (- (u AND 1))"

subsection \<open>The allocator and the encoder state\<close>

text \<open>Modelled from the spec: the allocator (\<open>upb_env\<close>, \<open>upb_env_realloc\<close>) is
  declared in upb/upb.h, which is not among the sources. The spec asks one capability
  of it: reallocate a byte region given its old size and the requested new size,
  returning a new base pointer or failure. An environment is the placement policy
  (old pointer, old size, new size to the new base address, \<open>0\<close> for failure);
  \<open>upb_env_realloc\<close> returns that address and the heap in which the new block starts
  with the first \<open>min oldsize size\<close> bytes of the old one. The rest of the new block
  holds whatever the heap held there.\<close>

type_synonym upb_env = "nat \<Rightarrow> nat \<Rightarrow> nat \<Rightarrow> nat"

definition upb_env_realloc :: "upb_env \<Rightarrow> heap \<Rightarrow> nat \<Rightarrow> nat \<Rightarrow> nat \<Rightarrow> nat \<times> heap" where
  "upb_env_realloc env h p oldsize sz =
     (let new = env p oldsize sz in
      if new = 0 then (0, h)
      else (new, \<lambda>a. if new \<le> a \<and> a < new + min oldsize sz then h (p + (a - new)) else h a))"

text \<open>\<open>upb_encstate\<close>, with the heap its pointers point into. The \<open>env\<close> field never
  changes and is passed beside the state.\<close>

record upb_encstate =
  heap :: heap
  buf :: nat
  ptr :: nat
  limit :: nat

text \<open>The ways a call of the encoder can end without a result. A function of the
  encoder returns \<open>false\<close> only when \<open>upb_env_realloc\<close> returned \<open>NULL\<close>; the error value
  records the arguments of that call (the block, its old size and the size asked for).
  No function of the encoder inspects them: \<open>false\<close> is passed on as it is.\<close>

datatype error =
    AllocationFailure nat nat nat
      \<comment> \<open>a function of the encoder returned \<open>false\<close>, after the call
          \<open>upb_env_realloc(env, ptr, oldsize, size)\<close> with these arguments returned \<open>NULL\<close>\<close>
  | Undefined
      \<comment> \<open>the C program has no defined behaviour: a failed assertion, a read of an
          uninitialised variable, a field read at a type the record does not hold
          there, an index out of range\<close>

text \<open>\<open>memmove(dst, src, n)\<close> inside the heap, and \<open>memcpy(dst, data, len)\<close> from
  bytes that lie outside the buffer (\<open>len\<close> is the length of the list).\<close>

definition memmove :: "heap \<Rightarrow> nat \<Rightarrow> nat \<Rightarrow> nat \<Rightarrow> heap" where
  "memmove h dst src n = (\<lambda>a. if dst \<le> a \<and> a < dst + n then h (src + (a - dst)) else h a)"

definition memcpy :: "heap \<Rightarrow> nat \<Rightarrow> byte list \<Rightarrow> heap" where
  "memcpy h dst data = (\<lambda>a. if dst \<le> a \<and> a < dst + length data then data ! (a - dst) else h a)"

text \<open>The bytes of the heap in \<open>[p, q)\<close>, in address order.\<close>

definition bytes_between :: "heap \<Rightarrow> nat \<Rightarrow> nat \<Rightarrow> byte list" where
  "bytes_between h p q = map h [p..<q]"

text \<open>The output written so far, \<open>[ptr, limit)\<close>, and its size \<open>limit - ptr\<close>.\<close>

definition written :: "upb_encstate \<Rightarrow> byte list" where
  "written e = bytes_between (heap e) (ptr e) (limit e)"

definition used :: "upb_encstate \<Rightarrow> nat" where
  "used e = limit e - ptr e"

subsection \<open>The growable reverse buffer\<close>

text \<open>The loop of \<open>upb_roundup_pow2\<close>, \<open>while (ret < bytes) ret *= 2\<close>. It is entered
  with \<open>ret = 128\<close>, so \<open>ret\<close> is never \<open>0\<close>; the test \<open>0 < ret\<close> only makes the
  recursion total for the arguments the code never passes.\<close>

function upb_roundup_pow2_loop :: "nat \<Rightarrow> nat \<Rightarrow> nat" where
  "upb_roundup_pow2_loop ret bytes =
     (if 0 < ret \<and> ret < bytes then upb_roundup_pow2_loop (ret * 2) bytes else ret)"
  by pat_completeness auto
termination
  by (relation "measure (\<lambda>(ret, bytes). bytes - ret)") auto

declare upb_roundup_pow2_loop.simps [simp del]

definition upb_roundup_pow2 :: "nat \<Rightarrow> nat" where
  "upb_roundup_pow2 bytes = upb_roundup_pow2_loop 128 bytes"

text \<open>\<open>upb_encode_growbuffer\<close>. The \<open>memmove\<close> is the source's: its destination is
  \<open>e->limit - old_size\<close>, computed from the old \<open>limit\<close>.\<close>

definition upb_encode_growbuffer :: "upb_env \<Rightarrow> upb_encstate \<Rightarrow> nat \<Rightarrow> error + upb_encstate" where
  "upb_encode_growbuffer env e bytes =
     (let old_size = limit e - buf e;
          new_size = upb_roundup_pow2 (bytes + (limit e - ptr e));
          (new_buf, h1) = upb_env_realloc env (heap e) (buf e) old_size new_size
      in if new_buf = 0 then Inl (AllocationFailure (buf e) old_size new_size)
         else let h2 = memmove h1 (limit e - old_size) (buf e) old_size
              in Inr (e\<lparr>heap := h2,
                        ptr := new_buf + new_size - (limit e - ptr e),
                        limit := new_buf + new_size,
                        buf := new_buf\<rparr>))"

definition upb_encode_reserve :: "upb_env \<Rightarrow> upb_encstate \<Rightarrow> nat \<Rightarrow> error + upb_encstate" where
  "upb_encode_reserve env e bytes =
     (if ptr e - buf e \<ge> bytes then Inr (e\<lparr>ptr := ptr e - bytes\<rparr>)
      else case upb_encode_growbuffer env e bytes of
             Inl err \<Rightarrow> Inl err
           | Inr e' \<Rightarrow> Inr (e'\<lparr>ptr := ptr e' - bytes\<rparr>))"

definition upb_put_bytes :: "upb_env \<Rightarrow> upb_encstate \<Rightarrow> byte list \<Rightarrow> error + upb_encstate" where
  "upb_put_bytes env e data =
     (case upb_encode_reserve env e (length data) of
        Inl err \<Rightarrow> Inl err
      | Inr e' \<Rightarrow> Inr (e'\<lparr>heap := memcpy (heap e') (ptr e') data\<rparr>))"

text \<open>The object representation of an unsigned integer on the little-endian host.\<close>

definition le_bytes :: "nat \<Rightarrow> 'a::len word \<Rightarrow> byte list" where
  "le_bytes n w = map (\<lambda>i. ucast (drop_bit (8 * i) w)) [0..<n]"

definition upb_put_fixed64 :: "upb_env \<Rightarrow> upb_encstate \<Rightarrow> 64 word \<Rightarrow> error + upb_encstate" where
  "upb_put_fixed64 env e val = upb_put_bytes env e (le_bytes 8 val)"

definition upb_put_fixed32 :: "upb_env \<Rightarrow> upb_encstate \<Rightarrow> 32 word \<Rightarrow> error + upb_encstate" where
  "upb_put_fixed32 env e val = upb_put_bytes env e (le_bytes 4 val)"

definition UPB_PB_VARINT_MAX_LEN :: nat where
  "UPB_PB_VARINT_MAX_LEN = 10"

definition upb_put_varint :: "upb_env \<Rightarrow> upb_encstate \<Rightarrow> 64 word \<Rightarrow> error + upb_encstate" where
  "upb_put_varint env e val =
     (case upb_encode_reserve env e UPB_PB_VARINT_MAX_LEN of
        Inl err \<Rightarrow> Inl err
      | Inr e' \<Rightarrow>
          let enc = upb_encode_varint val;
              len = length enc;
              h1 = memcpy (heap e') (ptr e') enc;
              start = ptr e' + UPB_PB_VARINT_MAX_LEN - len;
              h2 = memmove h1 start (ptr e') len
          in Inr (e'\<lparr>heap := h2, ptr := start\<rparr>))"

text \<open>\<open>upb_put_double\<close> and \<open>upb_put_float\<close> copy the bits of their argument into an
  unsigned integer of the same width; a double or float is its bits here.\<close>

definition upb_put_double :: "upb_env \<Rightarrow> upb_encstate \<Rightarrow> 64 word \<Rightarrow> error + upb_encstate" where
  "upb_put_double env e d = upb_put_fixed64 env e d"

definition upb_put_float :: "upb_env \<Rightarrow> upb_encstate \<Rightarrow> 32 word \<Rightarrow> error + upb_encstate" where
  "upb_put_float env e d = upb_put_fixed32 env e d"

text \<open>\<open>upb_put_tag(e, int field_number, int wire_type)\<close>: the tag is computed in
  \<open>int\<close> and converted to \<open>uint64_t\<close>, which extends the sign.\<close>

definition upb_put_tag :: "upb_env \<Rightarrow> upb_encstate \<Rightarrow> 32 word \<Rightarrow> 32 word \<Rightarrow> error + upb_encstate" where
  "upb_put_tag env e field_number wire_type =
     upb_put_varint env e (scast (push_bit 3 field_number OR wire_type))"

subsection \<open>Layouts and records\<close>

text \<open>Modelled from the spec: the schema descriptors (\<open>upb_msglayout_msginit_v1\<close>,
  \<open>upb_msglayout_fieldinit_v1\<close>, \<open>upb_msglayout_oneofinit_v1\<close>), the descriptor and
  field type enumerations, the labels and the wire type constants are declared in
  upb/structs.int.h and upb/upb.h, which are not among the sources. They follow the
  spec's data model: a field has a number, a wire category from a closed set, a label,
  the offset of its storage, a oneof membership ("not in a oneof" is \<open>None\<close>), a hasbit
  index ("no hasbit" is \<open>None\<close>) and a submessage layout index; a layout has its
  fields in declaration order (\<open>field_count\<close> is their number), its oneofs, its
  submessage layouts and the \<open>is_proto2\<close> flag.\<close>

datatype descriptortype =
    UPB_DESCRIPTOR_TYPE_DOUBLE | UPB_DESCRIPTOR_TYPE_FLOAT
  | UPB_DESCRIPTOR_TYPE_INT64 | UPB_DESCRIPTOR_TYPE_UINT64 | UPB_DESCRIPTOR_TYPE_INT32
  | UPB_DESCRIPTOR_TYPE_FIXED64 | UPB_DESCRIPTOR_TYPE_FIXED32
  | UPB_DESCRIPTOR_TYPE_BOOL | UPB_DESCRIPTOR_TYPE_STRING
  | UPB_DESCRIPTOR_TYPE_GROUP | UPB_DESCRIPTOR_TYPE_MESSAGE
  | UPB_DESCRIPTOR_TYPE_BYTES | UPB_DESCRIPTOR_TYPE_UINT32 | UPB_DESCRIPTOR_TYPE_ENUM
  | UPB_DESCRIPTOR_TYPE_SFIXED32 | UPB_DESCRIPTOR_TYPE_SFIXED64
  | UPB_DESCRIPTOR_TYPE_SINT32 | UPB_DESCRIPTOR_TYPE_SINT64

datatype fieldtype =
    UPB_TYPE_DOUBLE | UPB_TYPE_FLOAT | UPB_TYPE_INT64 | UPB_TYPE_UINT64
  | UPB_TYPE_INT32 | UPB_TYPE_UINT32 | UPB_TYPE_BOOL | UPB_TYPE_STRING
  | UPB_TYPE_MESSAGE | UPB_TYPE_BYTES | UPB_TYPE_ENUM

datatype label = UPB_LABEL_OPTIONAL | UPB_LABEL_REQUIRED | UPB_LABEL_REPEATED

text \<open>The table \<open>upb_desctype_to_fieldtype2\<close> of the source, on the descriptor types.\<close>

fun upb_desctype_to_fieldtype2 :: "descriptortype \<Rightarrow> fieldtype" where
  "upb_desctype_to_fieldtype2 UPB_DESCRIPTOR_TYPE_DOUBLE = UPB_TYPE_DOUBLE"
| "upb_desctype_to_fieldtype2 UPB_DESCRIPTOR_TYPE_FLOAT = UPB_TYPE_FLOAT"
| "upb_desctype_to_fieldtype2 UPB_DESCRIPTOR_TYPE_INT64 = UPB_TYPE_INT64"
| "upb_desctype_to_fieldtype2 UPB_DESCRIPTOR_TYPE_UINT64 = UPB_TYPE_UINT64"
| "upb_desctype_to_fieldtype2 UPB_DESCRIPTOR_TYPE_INT32 = UPB_TYPE_INT32"
| "upb_desctype_to_fieldtype2 UPB_DESCRIPTOR_TYPE_FIXED64 = UPB_TYPE_UINT64"
| "upb_desctype_to_fieldtype2 UPB_DESCRIPTOR_TYPE_FIXED32 = UPB_TYPE_UINT32"
| "upb_desctype_to_fieldtype2 UPB_DESCRIPTOR_TYPE_BOOL = UPB_TYPE_BOOL"
| "upb_desctype_to_fieldtype2 UPB_DESCRIPTOR_TYPE_STRING = UPB_TYPE_STRING"
| "upb_desctype_to_fieldtype2 UPB_DESCRIPTOR_TYPE_GROUP = UPB_TYPE_MESSAGE"
| "upb_desctype_to_fieldtype2 UPB_DESCRIPTOR_TYPE_MESSAGE = UPB_TYPE_MESSAGE"
| "upb_desctype_to_fieldtype2 UPB_DESCRIPTOR_TYPE_BYTES = UPB_TYPE_BYTES"
| "upb_desctype_to_fieldtype2 UPB_DESCRIPTOR_TYPE_UINT32 = UPB_TYPE_UINT32"
| "upb_desctype_to_fieldtype2 UPB_DESCRIPTOR_TYPE_ENUM = UPB_TYPE_ENUM"
| "upb_desctype_to_fieldtype2 UPB_DESCRIPTOR_TYPE_SFIXED32 = UPB_TYPE_INT32"
| "upb_desctype_to_fieldtype2 UPB_DESCRIPTOR_TYPE_SFIXED64 = UPB_TYPE_INT64"
| "upb_desctype_to_fieldtype2 UPB_DESCRIPTOR_TYPE_SINT32 = UPB_TYPE_INT32"
| "upb_desctype_to_fieldtype2 UPB_DESCRIPTOR_TYPE_SINT64 = UPB_TYPE_INT64"

definition UPB_WIRE_TYPE_VARINT :: "32 word" where "UPB_WIRE_TYPE_VARINT = 0"
definition UPB_WIRE_TYPE_64BIT :: "32 word" where "UPB_WIRE_TYPE_64BIT = 1"
definition UPB_WIRE_TYPE_DELIMITED :: "32 word" where "UPB_WIRE_TYPE_DELIMITED = 2"
definition UPB_WIRE_TYPE_START_GROUP :: "32 word" where "UPB_WIRE_TYPE_START_GROUP = 3"
definition UPB_WIRE_TYPE_END_GROUP :: "32 word" where "UPB_WIRE_TYPE_END_GROUP = 4"
definition UPB_WIRE_TYPE_32BIT :: "32 word" where "UPB_WIRE_TYPE_32BIT = 5"

record upb_msglayout_fieldinit_v1 =
  number :: "32 word"
  offset :: nat
  hasbit :: "nat option"
  oneof_index :: "nat option"
  submsg_index :: nat
  type :: descriptortype
  label :: label

record upb_msglayout_oneofinit_v1 =
  case_offset :: nat

datatype upb_msglayout_msginit_v1 =
  Layout (submsgs: "upb_msglayout_msginit_v1 list")
         (fields: "upb_msglayout_fieldinit_v1 list")
         (oneofs: "upb_msglayout_oneofinit_v1 list")
         (is_proto2: bool)

text \<open>A record is read only through the offsets of its layout. What the code reads at
  \<open>msg + f->offset\<close> is a value of the C type the field's category selects: an 8-byte
  or 4-byte scalar (a double or float is its bits), a \<open>bool\<close>, a string view, a
  pointer to a submessage or a pointer to an array (\<open>None\<close> is \<open>NULL\<close>). An array has
  its type tag and its elements (\<open>len\<close> is their number). The hasbits are read from the
  bytes of the record and a oneof's case as a \<open>uint32_t\<close> at its offset.\<close>

datatype slot =
    Bits64 "64 word"
  | Bits32 "32 word"
  | BoolVal bool
  | StringView "byte list"
  | SubMsg "msg option"
  | ArrayPtr "upb_array option"
and upb_array = Array (arr_type: fieldtype) (arr_data: "slot list")
and msg = Msg (field_mem: "nat \<Rightarrow> slot") (msg_bytes: "nat \<Rightarrow> byte") (case_mem: "nat \<Rightarrow> 32 word")

subsection \<open>Reading presence\<close>

definition upb_readcase :: "msg \<Rightarrow> upb_msglayout_msginit_v1 \<Rightarrow> nat \<Rightarrow> error + 32 word" where
  "upb_readcase msg m oi =
     (if oi < length (oneofs m)
      then Inr (case_mem msg (case_offset (oneofs m ! oi)))
      else Inl Undefined)"

definition upb_readhasbit :: "msg \<Rightarrow> upb_msglayout_fieldinit_v1 \<Rightarrow> error + bool" where
  "upb_readhasbit msg f =
     (case hasbit f of
        None \<Rightarrow> Inl Undefined
      | Some hb \<Rightarrow> Inr (msg_bytes msg (hb div 8) AND push_bit (hb mod 8) 1 \<noteq> 0))"

definition upb_encode_hasscalarfield ::
  "msg \<Rightarrow> upb_msglayout_msginit_v1 \<Rightarrow> upb_msglayout_fieldinit_v1 \<Rightarrow> error + bool" where
  "upb_encode_hasscalarfield msg m f =
     (case oneof_index f of
        Some oi \<Rightarrow> (case upb_readcase msg m oi of
                      Inl err \<Rightarrow> Inl err
                    | Inr c \<Rightarrow> Inr (c = number f))
      | None \<Rightarrow> if is_proto2 m then upb_readhasbit msg f else Inr True)"

subsection \<open>Field encoders\<close>

text \<open>\<open>a && b\<close> on two calls that return \<open>bool\<close>: \<open>b\<close> runs in the state \<open>a\<close> left,
  unless \<open>a\<close> returned \<open>false\<close>.\<close>

definition and_then :: "error + 'a \<Rightarrow> ('a \<Rightarrow> error + 'b) \<Rightarrow> error + 'b" where
  "and_then r k = (case r of Inl err \<Rightarrow> Inl err | Inr x \<Rightarrow> k x)"

text \<open>The reads \<open>*(ctype* )field_mem\<close> and \<open>*ptr\<close>. A read at a type the record does
  not hold there has no defined result.\<close>

definition read_bits64 :: "slot \<Rightarrow> error + 64 word" where
  "read_bits64 s = (case s of Bits64 v \<Rightarrow> Inr v | _ \<Rightarrow> Inl Undefined)"

definition read_bits32 :: "slot \<Rightarrow> error + 32 word" where
  "read_bits32 s = (case s of Bits32 v \<Rightarrow> Inr v | _ \<Rightarrow> Inl Undefined)"

definition read_bool :: "slot \<Rightarrow> error + bool" where
  "read_bool s = (case s of BoolVal b \<Rightarrow> Inr b | _ \<Rightarrow> Inl Undefined)"

definition read_stringview :: "slot \<Rightarrow> error + byte list" where
  "read_stringview s = (case s of StringView v \<Rightarrow> Inr v | _ \<Rightarrow> Inl Undefined)"

fun read_elems :: "(slot \<Rightarrow> error + 'a) \<Rightarrow> slot list \<Rightarrow> error + 'a list" where
  "read_elems rd [] = Inr []"
| "read_elems rd (x # xs) =
     and_then (rd x) (\<lambda>v. and_then (read_elems rd xs) (\<lambda>vs. Inr (v # vs)))"

text \<open>\<open>val == 0\<close> on a \<open>double\<close> or \<open>float\<close> given by its bits: both zeros compare
  equal to \<open>0\<close>, and nothing else does.\<close>

definition double_is_zero :: "64 word \<Rightarrow> bool" where
  "double_is_zero d = (d AND 0x7FFFFFFFFFFFFFFF = 0)"

definition float_is_zero :: "32 word \<Rightarrow> bool" where
  "float_is_zero d = (d AND 0x7FFFFFFF = 0)"

text \<open>The macro \<open>CASE\<close> of \<open>upb_encode_scalarfield\<close>, after the read of \<open>val\<close>:
  \<open>val_is_zero\<close> is \<open>val == 0\<close> and \<open>put\<close> is \<open>upb_put_type(e, encodeval)\<close>.\<close>

definition CASE ::
  "upb_env \<Rightarrow> upb_encstate \<Rightarrow> upb_msglayout_fieldinit_v1 \<Rightarrow> bool \<Rightarrow> bool \<Rightarrow>
   (upb_encstate \<Rightarrow> error + upb_encstate) \<Rightarrow> 32 word \<Rightarrow> error + upb_encstate" where
  "CASE env e f skip_zero_value val_is_zero put wire_type =
     (if skip_zero_value \<and> val_is_zero then Inr e
      else and_then (put e) (\<lambda>e'. upb_put_tag env e' (number f) wire_type))"

text \<open>\<open>upb_put_fixedarray\<close>: \<open>arr->data\<close> holds the elements' object representations one
  after the other, each \<open>sz\<close> bytes wide (the parameter \<open>size\<close> of the source).\<close>

definition elem_bytes :: "nat \<Rightarrow> slot \<Rightarrow> error + byte list" where
  "elem_bytes sz s =
     (case s of
        Bits64 v \<Rightarrow> if sz = 8 then Inr (le_bytes 8 v) else Inl Undefined
      | Bits32 v \<Rightarrow> if sz = 4 then Inr (le_bytes 4 v) else Inl Undefined
      | _ \<Rightarrow> Inl Undefined)"

definition upb_put_fixedarray :: "upb_env \<Rightarrow> upb_encstate \<Rightarrow> upb_array \<Rightarrow> nat \<Rightarrow> error + upb_encstate" where
  "upb_put_fixedarray env e arr sz =
     (let bytes = length (arr_data arr) * sz in
      and_then (read_elems (elem_bytes sz) (arr_data arr)) (\<lambda>data.
      and_then (upb_put_bytes env e (concat data)) (\<lambda>e'.
      upb_put_varint env e' (word_of_nat bytes))))"

text \<open>The macro \<open>VARINT_CASE\<close> of \<open>upb_encode_array\<close>: \<open>vals\<close> are the values
  \<open>encode\<close> of the elements, in array order; the \<open>do\<close> loop runs from the last
  element to the first (the array is not empty).\<close>

fun put_varints :: "upb_env \<Rightarrow> upb_encstate \<Rightarrow> 64 word list \<Rightarrow> error + upb_encstate" where
  "put_varints env e [] = Inr e"
| "put_varints env e (v # vs) =
     (case upb_put_varint env e v of
        Inl err \<Rightarrow> Inl err
      | Inr e' \<Rightarrow> put_varints env e' vs)"

definition VARINT_CASE :: "upb_env \<Rightarrow> upb_encstate \<Rightarrow> 64 word list \<Rightarrow> error + upb_encstate" where
  "VARINT_CASE env e vals =
     (let pre_len = limit e - ptr e in
      and_then (put_varints env e (rev vals)) (\<lambda>e'.
      upb_put_varint env e' (word_of_nat (limit e' - ptr e' - pre_len))))"

text \<open>The statement after the \<open>switch\<close> of \<open>upb_encode_array\<close>, reached by the packed
  cases only.\<close>

definition packed_tag ::
  "upb_env \<Rightarrow> upb_msglayout_fieldinit_v1 \<Rightarrow> error + upb_encstate \<Rightarrow> error + upb_encstate" where
  "packed_tag env f r = and_then r (\<lambda>e'. upb_put_tag env e' (number f) UPB_WIRE_TYPE_DELIMITED)"

text \<open>The \<open>do\<close> loop of the string and bytes case, over the elements from the last to
  the first.\<close>

fun put_strings ::
  "upb_env \<Rightarrow> upb_encstate \<Rightarrow> upb_msglayout_fieldinit_v1 \<Rightarrow> byte list list \<Rightarrow> error + upb_encstate" where
  "put_strings env e f [] = Inr e"
| "put_strings env e f (v # vs) =
     (case and_then (upb_put_bytes env e v) (\<lambda>e1.
           and_then (upb_put_varint env e1 (word_of_nat (length v))) (\<lambda>e2.
           upb_put_tag env e2 (number f) UPB_WIRE_TYPE_DELIMITED)) of
        Inl err \<Rightarrow> Inl err
      | Inr e' \<Rightarrow> put_strings env e' f vs)"

text \<open>\<open>buf_end - e->ptr\<close> stored in a \<open>size_t\<close>: the two pointers are addresses, and
  the difference wraps when \<open>buf_end\<close> is the smaller one.\<close>

definition ptrdiff_to_size :: "nat \<Rightarrow> nat \<Rightarrow> nat" where
  "ptrdiff_to_size p q = nat ((int p - int q) mod 2 ^ 64)"

subsection \<open>The message encoder\<close>

text \<open>\<open>upb_encode_message\<close>, \<open>upb_encode_scalarfield\<close> and \<open>upb_encode_array\<close> call each
  other. \<open>upb_encode_message\<close> returns the state and what it left in \<open>*size\<close>: \<open>None\<close>
  when it did not assign it. \<open>upb_encode_message_fields\<close> is its \<open>for\<close> loop, over the
  fields from the last declared to the first; \<open>put_groups\<close> and \<open>put_messages\<close> are the
  \<open>do\<close> loops of the group and message cases of \<open>upb_encode_array\<close>, over the elements
  from the last to the first. The local \<open>size\<close> of the callers is not initialised, so
  reading it when the callee did not assign it has no defined result. The recursion
  descends along the layout.\<close>

function upb_encode_message ::
    "upb_env \<Rightarrow> upb_encstate \<Rightarrow> msg option \<Rightarrow> upb_msglayout_msginit_v1 \<Rightarrow>
     error + (upb_encstate \<times> nat option)"
  and upb_encode_message_fields ::
    "upb_env \<Rightarrow> upb_encstate \<Rightarrow> msg \<Rightarrow> upb_msglayout_msginit_v1 \<Rightarrow>
     upb_msglayout_fieldinit_v1 list \<Rightarrow> error + upb_encstate"
  and upb_encode_scalarfield ::
    "upb_env \<Rightarrow> upb_encstate \<Rightarrow> slot \<Rightarrow> upb_msglayout_msginit_v1 \<Rightarrow>
     upb_msglayout_fieldinit_v1 \<Rightarrow> bool \<Rightarrow> error + upb_encstate"
  and upb_encode_array ::
    "upb_env \<Rightarrow> upb_encstate \<Rightarrow> slot \<Rightarrow> upb_msglayout_msginit_v1 \<Rightarrow>
     upb_msglayout_fieldinit_v1 \<Rightarrow> error + upb_encstate"
  and put_groups ::
    "upb_env \<Rightarrow> upb_encstate \<Rightarrow> upb_msglayout_msginit_v1 \<Rightarrow>
     upb_msglayout_fieldinit_v1 \<Rightarrow> slot list \<Rightarrow> error + upb_encstate"
  and put_messages ::
    "upb_env \<Rightarrow> upb_encstate \<Rightarrow> upb_msglayout_msginit_v1 \<Rightarrow>
     upb_msglayout_fieldinit_v1 \<Rightarrow> slot list \<Rightarrow> error + upb_encstate"
where
  "upb_encode_message env e None m = Inr (e, None)"
| "upb_encode_message env e (Some msg) m =
     (case upb_encode_message_fields env e msg m (rev (fields m)) of
        Inl err \<Rightarrow> Inl err
      | Inr e' \<Rightarrow> Inr (e', Some (ptrdiff_to_size (ptr e) (ptr e'))))"
| "upb_encode_message_fields env e msg m [] = Inr e"
| "upb_encode_message_fields env e msg m (f # fs) =
     (case (if label f = UPB_LABEL_REPEATED
            then upb_encode_array env e (field_mem msg (offset f)) m f
            else case upb_encode_hasscalarfield msg m f of
                   Inl err \<Rightarrow> Inl err
                 | Inr has \<Rightarrow>
                     if has
                     then upb_encode_scalarfield env e (field_mem msg (offset f)) m f (\<not> is_proto2 m)
                     else Inr e) of
        Inl err \<Rightarrow> Inl err
      | Inr e' \<Rightarrow> upb_encode_message_fields env e' msg m fs)"
| "upb_encode_scalarfield env e fm m f is_proto3 =
     (let skip_zero_value = (is_proto3 \<and> oneof_index f = None) in
      case type f of
        UPB_DESCRIPTOR_TYPE_DOUBLE \<Rightarrow>
          and_then (read_bits64 fm) (\<lambda>val.
            CASE env e f skip_zero_value (double_is_zero val)
              (\<lambda>e. upb_put_double env e val) UPB_WIRE_TYPE_64BIT)
      | UPB_DESCRIPTOR_TYPE_FLOAT \<Rightarrow>
          and_then (read_bits32 fm) (\<lambda>val.
            CASE env e f skip_zero_value (float_is_zero val)
              (\<lambda>e. upb_put_float env e val) UPB_WIRE_TYPE_32BIT)
      | UPB_DESCRIPTOR_TYPE_INT64 \<Rightarrow>
          and_then (read_bits64 fm) (\<lambda>val.
            CASE env e f skip_zero_value (val = 0)
              (\<lambda>e. upb_put_varint env e val) UPB_WIRE_TYPE_VARINT)
      | UPB_DESCRIPTOR_TYPE_UINT64 \<Rightarrow>
          and_then (read_bits64 fm) (\<lambda>val.
            CASE env e f skip_zero_value (val = 0)
              (\<lambda>e. upb_put_varint env e val) UPB_WIRE_TYPE_VARINT)
      | UPB_DESCRIPTOR_TYPE_UINT32 \<Rightarrow>
          and_then (read_bits32 fm) (\<lambda>val.
            CASE env e f skip_zero_value (val = 0)
              (\<lambda>e. upb_put_varint env e (ucast val)) UPB_WIRE_TYPE_VARINT)
      | UPB_DESCRIPTOR_TYPE_INT32 \<Rightarrow>
          and_then (read_bits32 fm) (\<lambda>val.
            CASE env e f skip_zero_value (val = 0)
              (\<lambda>e. upb_put_varint env e (ucast val)) UPB_WIRE_TYPE_VARINT)
      | UPB_DESCRIPTOR_TYPE_ENUM \<Rightarrow>
          and_then (read_bits32 fm) (\<lambda>val.
            CASE env e f skip_zero_value (val = 0)
              (\<lambda>e. upb_put_varint env e (ucast val)) UPB_WIRE_TYPE_VARINT)
      | UPB_DESCRIPTOR_TYPE_SFIXED64 \<Rightarrow>
          and_then (read_bits64 fm) (\<lambda>val.
            CASE env e f skip_zero_value (val = 0)
              (\<lambda>e. upb_put_fixed64 env e val) UPB_WIRE_TYPE_64BIT)
      | UPB_DESCRIPTOR_TYPE_FIXED64 \<Rightarrow>
          and_then (read_bits64 fm) (\<lambda>val.
            CASE env e f skip_zero_value (val = 0)
              (\<lambda>e. upb_put_fixed64 env e val) UPB_WIRE_TYPE_64BIT)
      | UPB_DESCRIPTOR_TYPE_FIXED32 \<Rightarrow>
          and_then (read_bits32 fm) (\<lambda>val.
            CASE env e f skip_zero_value (val = 0)
              (\<lambda>e. upb_put_fixed32 env e val) UPB_WIRE_TYPE_32BIT)
      | UPB_DESCRIPTOR_TYPE_SFIXED32 \<Rightarrow>
          and_then (read_bits32 fm) (\<lambda>val.
            CASE env e f skip_zero_value (val = 0)
              (\<lambda>e. upb_put_fixed32 env e val) UPB_WIRE_TYPE_32BIT)
      | UPB_DESCRIPTOR_TYPE_BOOL \<Rightarrow>
          and_then (read_bool fm) (\<lambda>val.
            CASE env e f skip_zero_value (\<not> val)
              (\<lambda>e. upb_put_varint env e (if val then 1 else 0)) UPB_WIRE_TYPE_VARINT)
      | UPB_DESCRIPTOR_TYPE_SINT32 \<Rightarrow>
          and_then (read_bits32 fm) (\<lambda>val.
            CASE env e f skip_zero_value (val = 0)
              (\<lambda>e. upb_put_varint env e (ucast (upb_zzencode_32 val))) UPB_WIRE_TYPE_VARINT)
      | UPB_DESCRIPTOR_TYPE_SINT64 \<Rightarrow>
          and_then (read_bits64 fm) (\<lambda>val.
            CASE env e f skip_zero_value (val = 0)
              (\<lambda>e. upb_put_varint env e (upb_zzencode_64 val)) UPB_WIRE_TYPE_VARINT)
      | UPB_DESCRIPTOR_TYPE_STRING \<Rightarrow>
          and_then (read_stringview fm) (\<lambda>view.
            if skip_zero_value \<and> length view = 0 then Inr e
            else and_then (upb_put_bytes env e view) (\<lambda>e1.
                 and_then (upb_put_varint env e1 (word_of_nat (length view))) (\<lambda>e2.
                 upb_put_tag env e2 (number f) UPB_WIRE_TYPE_DELIMITED)))
      | UPB_DESCRIPTOR_TYPE_BYTES \<Rightarrow>
          and_then (read_stringview fm) (\<lambda>view.
            if skip_zero_value \<and> length view = 0 then Inr e
            else and_then (upb_put_bytes env e view) (\<lambda>e1.
                 and_then (upb_put_varint env e1 (word_of_nat (length view))) (\<lambda>e2.
                 upb_put_tag env e2 (number f) UPB_WIRE_TYPE_DELIMITED)))
      | UPB_DESCRIPTOR_TYPE_GROUP \<Rightarrow>
          (case fm of
             SubMsg submsg \<Rightarrow>
               if submsg_index f < length (submsgs m)
               then if skip_zero_value \<and> submsg = None then Inr e
                    else case upb_put_tag env e (number f) UPB_WIRE_TYPE_END_GROUP of
                           Inl err \<Rightarrow> Inl err
                         | Inr e1 \<Rightarrow>
                             (case upb_encode_message env e1 submsg (submsgs m ! submsg_index f) of
                                Inl err \<Rightarrow> Inl err
                              | Inr (e2, sz) \<Rightarrow>
                                  upb_put_tag env e2 (number f) UPB_WIRE_TYPE_START_GROUP)
               else Inl Undefined
           | _ \<Rightarrow> Inl Undefined)
      | UPB_DESCRIPTOR_TYPE_MESSAGE \<Rightarrow>
          (case fm of
             SubMsg submsg \<Rightarrow>
               if submsg_index f < length (submsgs m)
               then if skip_zero_value \<and> submsg = None then Inr e
                    else case upb_encode_message env e submsg (submsgs m ! submsg_index f) of
                           Inl err \<Rightarrow> Inl err
                         | Inr (e1, None) \<Rightarrow> Inl Undefined
                         | Inr (e1, Some sz) \<Rightarrow>
                             and_then (upb_put_varint env e1 (word_of_nat sz)) (\<lambda>e2.
                             upb_put_tag env e2 (number f) UPB_WIRE_TYPE_DELIMITED)
               else Inl Undefined
           | _ \<Rightarrow> Inl Undefined))"
| "upb_encode_array env e fm m f =
     (case fm of
        ArrayPtr None \<Rightarrow> Inr e
      | ArrayPtr (Some arr) \<Rightarrow>
          if length (arr_data arr) = 0 then Inr e
          else if arr_type arr \<noteq> upb_desctype_to_fieldtype2 (type f) then Inl Undefined
          else (case type f of
             UPB_DESCRIPTOR_TYPE_DOUBLE \<Rightarrow> packed_tag env f (upb_put_fixedarray env e arr 8)
           | UPB_DESCRIPTOR_TYPE_FLOAT \<Rightarrow> packed_tag env f (upb_put_fixedarray env e arr 4)
           | UPB_DESCRIPTOR_TYPE_SFIXED64 \<Rightarrow> packed_tag env f (upb_put_fixedarray env e arr 8)
           | UPB_DESCRIPTOR_TYPE_FIXED64 \<Rightarrow> packed_tag env f (upb_put_fixedarray env e arr 8)
           | UPB_DESCRIPTOR_TYPE_FIXED32 \<Rightarrow> packed_tag env f (upb_put_fixedarray env e arr 4)
           | UPB_DESCRIPTOR_TYPE_SFIXED32 \<Rightarrow> packed_tag env f (upb_put_fixedarray env e arr 4)
           | UPB_DESCRIPTOR_TYPE_INT64 \<Rightarrow>
               packed_tag env f (and_then (read_elems read_bits64 (arr_data arr)) (\<lambda>vs.
                 VARINT_CASE env e vs))
           | UPB_DESCRIPTOR_TYPE_UINT64 \<Rightarrow>
               packed_tag env f (and_then (read_elems read_bits64 (arr_data arr)) (\<lambda>vs.
                 VARINT_CASE env e vs))
           | UPB_DESCRIPTOR_TYPE_UINT32 \<Rightarrow>
               packed_tag env f (and_then (read_elems read_bits32 (arr_data arr)) (\<lambda>vs.
                 VARINT_CASE env e (map ucast vs)))
           | UPB_DESCRIPTOR_TYPE_INT32 \<Rightarrow>
               packed_tag env f (and_then (read_elems read_bits32 (arr_data arr)) (\<lambda>vs.
                 VARINT_CASE env e (map ucast vs)))
           | UPB_DESCRIPTOR_TYPE_ENUM \<Rightarrow>
               packed_tag env f (and_then (read_elems read_bits32 (arr_data arr)) (\<lambda>vs.
                 VARINT_CASE env e (map ucast vs)))
           | UPB_DESCRIPTOR_TYPE_BOOL \<Rightarrow>
               packed_tag env f (and_then (read_elems read_bool (arr_data arr)) (\<lambda>vs.
                 VARINT_CASE env e (map (\<lambda>b. if b then 1 else 0) vs)))
           | UPB_DESCRIPTOR_TYPE_SINT32 \<Rightarrow>
               packed_tag env f (and_then (read_elems read_bits32 (arr_data arr)) (\<lambda>vs.
                 VARINT_CASE env e (map (\<lambda>v. ucast (upb_zzencode_32 v)) vs)))
           | UPB_DESCRIPTOR_TYPE_SINT64 \<Rightarrow>
               packed_tag env f (and_then (read_elems read_bits64 (arr_data arr)) (\<lambda>vs.
                 VARINT_CASE env e (map upb_zzencode_64 vs)))
           | UPB_DESCRIPTOR_TYPE_STRING \<Rightarrow>
               and_then (read_elems read_stringview (arr_data arr)) (\<lambda>vs.
                 put_strings env e f (rev vs))
           | UPB_DESCRIPTOR_TYPE_BYTES \<Rightarrow>
               and_then (read_elems read_stringview (arr_data arr)) (\<lambda>vs.
                 put_strings env e f (rev vs))
           | UPB_DESCRIPTOR_TYPE_GROUP \<Rightarrow>
               if submsg_index f < length (submsgs m)
               then put_groups env e (submsgs m ! submsg_index f) f (rev (arr_data arr))
               else Inl Undefined
           | UPB_DESCRIPTOR_TYPE_MESSAGE \<Rightarrow>
               if submsg_index f < length (submsgs m)
               then put_messages env e (submsgs m ! submsg_index f) f (rev (arr_data arr))
               else Inl Undefined)
      | _ \<Rightarrow> Inl Undefined)"
| "put_groups env e subm f [] = Inr e"
| "put_groups env e subm f (x # xs) =
     (case x of
        SubMsg p \<Rightarrow>
          (case upb_put_tag env e (number f) UPB_WIRE_TYPE_END_GROUP of
             Inl err \<Rightarrow> Inl err
           | Inr e1 \<Rightarrow>
               (case upb_encode_message env e1 p subm of
                  Inl err \<Rightarrow> Inl err
                | Inr (e2, sz) \<Rightarrow>
                    (case upb_put_tag env e2 (number f) UPB_WIRE_TYPE_START_GROUP of
                       Inl err \<Rightarrow> Inl err
                     | Inr e3 \<Rightarrow> put_groups env e3 subm f xs)))
      | _ \<Rightarrow> Inl Undefined)"
| "put_messages env e subm f [] = Inr e"
| "put_messages env e subm f (x # xs) =
     (case x of
        SubMsg p \<Rightarrow>
          (case upb_encode_message env e p subm of
             Inl err \<Rightarrow> Inl err
           | Inr (e1, None) \<Rightarrow> Inl Undefined
           | Inr (e1, Some sz) \<Rightarrow>
               (case and_then (upb_put_varint env e1 (word_of_nat sz)) (\<lambda>e2.
                     upb_put_tag env e2 (number f) UPB_WIRE_TYPE_DELIMITED) of
                  Inl err \<Rightarrow> Inl err
                | Inr e3 \<Rightarrow> put_messages env e3 subm f xs))
      | _ \<Rightarrow> Inl Undefined)"
  by pat_completeness auto
termination
proof -
  have sz: "size (xs ! i) < Suc (size_list size xs)" if "i < length xs"
    for xs :: "upb_msglayout_msginit_v1 list" and i
    using that
  proof (induction xs arbitrary: i)
    case Nil then show ?case by simp
  next
    case (Cons x xs)
    show ?case
    proof (cases i)
      case 0 then show ?thesis by simp
    next
      case (Suc j)
      with Cons.prems have "j < length xs" by simp
      from Cons.IH [OF this] show ?thesis using Suc by simp
    qed
  qed
  have sz2: "size (submsgs m ! i) < size m" if "i < length (submsgs m)"
    for m :: upb_msglayout_msginit_v1 and i
  proof (cases m)
    case (Layout subs fs os p2)
    with that have "i < length subs" by simp
    from sz [OF this] show ?thesis using Layout by simp
  qed
  show ?thesis
    apply (relation "inv_image (less_than <*lex*> less_than <*lex*> less_than)
      (\<lambda>x. case x of
          Inl (Inl (env, e, mo, m)) \<Rightarrow> (size m, 2::nat, 0::nat)
        | Inl (Inr (Inl (env, e, msg, m, fs))) \<Rightarrow> (size m, 1, length fs)
        | Inl (Inr (Inr (env, e, fm, m, f, b))) \<Rightarrow> (size m, 0, 0)
        | Inr (Inl (env, e, fm, m, f)) \<Rightarrow> (size m, 0, 0)
        | Inr (Inr (Inl (env, e, subm, f, xs))) \<Rightarrow> (size subm, 3, length xs)
        | Inr (Inr (Inr (env, e, subm, f, xs))) \<Rightarrow> (size subm, 3, length xs))")
    apply (auto simp: sz2)
    done
qed

declare upb_encode_scalarfield.simps [simp del]
declare upb_encode_array.simps [simp del]

subsection \<open>The entry point\<close>

text \<open>What \<open>upb_encode\<close> returns: \<open>NULL\<close>, the address of its static \<open>ch\<close>, or an
  address in the buffer.\<close>

datatype cptr = NULL | Static_ch | Ptr nat

text \<open>\<open>upb_encode\<close> returns the pointer and what it left in \<open>*size\<close>; the third component
  is what the caller can read there, the \<open>*size\<close> bytes at the returned pointer.\<close>

definition upb_encode ::
  "upb_env \<Rightarrow> heap \<Rightarrow> msg option \<Rightarrow> upb_msglayout_msginit_v1 \<Rightarrow> error + (cptr \<times> nat \<times> byte list)" where
  "upb_encode env h msg m =
     (let e = \<lparr>heap = h, buf = 0, ptr = 0, limit = 0\<rparr> in
      case upb_encode_message env e msg m of
        Inl (AllocationFailure p oldsize newsize) \<Rightarrow> Inr (NULL, 0, [])
      | Inl Undefined \<Rightarrow> Inl Undefined
      | Inr (e', sz) \<Rightarrow>
          let size_out = limit e' - ptr e' in
          if size_out = 0 then Inr (Static_ch, size_out, [])
          else if ptr e' = 0 then Inl Undefined
          else Inr (Ptr (ptr e'), size_out, bytes_between (heap e') (ptr e') (ptr e' + size_out)))"

subsection \<open>Reading a varint\<close>

text \<open>The number a byte sequence denotes in base 128, least significant group first:
  each byte contributes its low seven bits. \<open>continued\<close> is the framing of a varint:
  every byte but the last has its top bit set, the last has it clear. A byte sequence
  is an encoding of \<open>v\<close> when it is framed so and denotes \<open>v\<close>.\<close>

fun varint_value :: "byte list \<Rightarrow> nat" where
  "varint_value [] = 0"
| "varint_value (b # bs) = unat (b AND 0x7f) + 128 * varint_value bs"

definition continued :: "byte list \<Rightarrow> bool" where
  "continued bs \<longleftrightarrow> bs \<noteq> [] \<and> (\<forall>b \<in> set (butlast bs). bit b 7) \<and> \<not> bit (last bs) 7"

definition is_varint_of :: "byte list \<Rightarrow> 64 word \<Rightarrow> bool" where
  "is_varint_of bs v \<longleftrightarrow>
     bs \<noteq> [] \<and> (\<forall>b \<in> set (butlast bs). bit b 7) \<and> \<not> bit (last bs) 7 \<and> varint_value bs = unat v"

subsection \<open>The state invariant\<close>

text \<open>The invariant of the encoder state (the spec's \<open>start \<le> cursor \<le> end\<close>); before the
  first allocation the three pointers are \<open>NULL\<close>.\<close>

definition wf_state :: "upb_encstate \<Rightarrow> bool" where
  "wf_state e \<longleftrightarrow> buf e \<le> ptr e \<and> ptr e \<le> limit e \<and> (buf e = 0 \<longrightarrow> limit e = 0)"

subsection \<open>Results of a step\<close>

text \<open>What a call of the encoder in a state that satisfies the invariant leaves behind:
  on success a state that satisfies the invariant and holds at least \<open>u\<close> bytes of
  output; a failure only after the allocator denied the request the failure records,
  which asked for a larger block.\<close>

definition ok_res :: "upb_env \<Rightarrow> nat \<Rightarrow> error + upb_encstate \<Rightarrow> bool" where
  "ok_res env u r =
     (case r of
        Inr e' \<Rightarrow> wf_state e' \<and> u \<le> used e'
      | Inl (AllocationFailure p old new) \<Rightarrow> env p old new = 0 \<and> old < new
      | Inl Undefined \<Rightarrow> True)"

subsection \<open>Presence of a singular field\<close>

text \<open>The zero value of a field's type: numeric 0 (for a double or float, a value that
  compares equal to 0), \<open>false\<close>, the empty string, the null submessage pointer. A
  singular field is present when: in a oneof, the oneof's case equals its number; else in
  a proto2 layout, its hasbit is set; else (proto3) its value is not the zero value.\<close>

definition is_zero_value :: "descriptortype \<Rightarrow> slot \<Rightarrow> bool" where
  "is_zero_value t s =
     (case s of
        Bits64 v \<Rightarrow> if t = UPB_DESCRIPTOR_TYPE_DOUBLE then double_is_zero v else v = 0
      | Bits32 v \<Rightarrow> if t = UPB_DESCRIPTOR_TYPE_FLOAT then float_is_zero v else v = 0
      | BoolVal b \<Rightarrow> \<not> b
      | StringView v \<Rightarrow> v = []
      | SubMsg p \<Rightarrow> p = None
      | ArrayPtr a \<Rightarrow> False)"

definition field_present :: "msg \<Rightarrow> upb_msglayout_msginit_v1 \<Rightarrow> upb_msglayout_fieldinit_v1 \<Rightarrow> bool" where
  "field_present msg m f =
     (case oneof_index f of
        Some oi \<Rightarrow> case_mem msg (case_offset (oneofs m ! oi)) = number f
      | None \<Rightarrow>
          if is_proto2 m
          then (case hasbit f of Some hb \<Rightarrow> bit (msg_bytes msg (hb div 8)) (hb mod 8) | None \<Rightarrow> False)
          else \<not> is_zero_value (type f) (field_mem msg (offset f)))"

subsection \<open>Records that fit their layout\<close>

text \<open>The encoder reads a record through the offsets of its layout, at the C type the
  field's descriptor type selects. \<open>holds_type\<close> says that a slot holds a value of that
  type. A record fits its layout when every read the encoder performs on it is a read of
  what is there: the slots of the fields the encoder reads hold their type, the indices
  of oneofs and of submessage layouts are in range, a proto2 field outside a oneof has a
  hasbit, an array holds the type of its field, and so on through the submessages and the
  elements. A null submessage pointer fits a group, and a message field that the proto3
  elision rule skips; a message written as a length-delimited field (a field selected by
  its hasbit or by its oneof, an element of an array) must not be null, because the
  encoder reads the length that \<open>upb_encode_message\<close> leaves unassigned for a null
  record.\<close>

definition holds_type :: "descriptortype \<Rightarrow> slot \<Rightarrow> bool" where
  "holds_type t s =
     (case s of
        Bits64 v \<Rightarrow> t \<in> {UPB_DESCRIPTOR_TYPE_DOUBLE, UPB_DESCRIPTOR_TYPE_INT64,
                          UPB_DESCRIPTOR_TYPE_UINT64, UPB_DESCRIPTOR_TYPE_FIXED64,
                          UPB_DESCRIPTOR_TYPE_SFIXED64, UPB_DESCRIPTOR_TYPE_SINT64}
      | Bits32 v \<Rightarrow> t \<in> {UPB_DESCRIPTOR_TYPE_FLOAT, UPB_DESCRIPTOR_TYPE_INT32,
                          UPB_DESCRIPTOR_TYPE_UINT32, UPB_DESCRIPTOR_TYPE_ENUM,
                          UPB_DESCRIPTOR_TYPE_FIXED32, UPB_DESCRIPTOR_TYPE_SFIXED32,
                          UPB_DESCRIPTOR_TYPE_SINT32}
      | BoolVal b \<Rightarrow> t = UPB_DESCRIPTOR_TYPE_BOOL
      | StringView v \<Rightarrow> t \<in> {UPB_DESCRIPTOR_TYPE_STRING, UPB_DESCRIPTOR_TYPE_BYTES}
      | SubMsg p \<Rightarrow> t \<in> {UPB_DESCRIPTOR_TYPE_GROUP, UPB_DESCRIPTOR_TYPE_MESSAGE}
      | ArrayPtr a \<Rightarrow> False)"

function msg_ok :: "upb_msglayout_msginit_v1 \<Rightarrow> msg \<Rightarrow> bool"
  and field_ok :: "upb_msglayout_msginit_v1 \<Rightarrow> msg \<Rightarrow> upb_msglayout_fieldinit_v1 \<Rightarrow> bool"
  and value_ok :: "upb_msglayout_msginit_v1 \<Rightarrow> upb_msglayout_fieldinit_v1 \<Rightarrow> bool \<Rightarrow> slot \<Rightarrow> bool"
  and array_ok :: "upb_msglayout_msginit_v1 \<Rightarrow> upb_msglayout_fieldinit_v1 \<Rightarrow> slot \<Rightarrow> bool"
  and elem_ok :: "upb_msglayout_msginit_v1 \<Rightarrow> bool \<Rightarrow> slot \<Rightarrow> bool"
where
  "msg_ok m msg = (\<forall>f \<in> set (fields m). field_ok m msg f)"
| "field_ok m msg f =
     (if label f = UPB_LABEL_REPEATED then array_ok m f (field_mem msg (offset f))
      else case oneof_index f of
             Some oi \<Rightarrow>
               oi < length (oneofs m) \<and>
               (case_mem msg (case_offset (oneofs m ! oi)) = number f \<longrightarrow>
                  value_ok m f (\<not> is_proto2 m) (field_mem msg (offset f)))
           | None \<Rightarrow>
               if is_proto2 m
               then (case hasbit f of
                       None \<Rightarrow> False
                     | Some hb \<Rightarrow>
                         bit (msg_bytes msg (hb div 8)) (hb mod 8) \<longrightarrow>
                           value_ok m f False (field_mem msg (offset f)))
               else value_ok m f True (field_mem msg (offset f)))"
| "value_ok m f is_proto3 s =
     (holds_type (type f) s \<and>
      (case s of
         SubMsg p \<Rightarrow>
           if submsg_index f < length (submsgs m)
           then (case p of
                   None \<Rightarrow> type f = UPB_DESCRIPTOR_TYPE_GROUP \<or> (is_proto3 \<and> oneof_index f = None)
                 | Some sub \<Rightarrow> msg_ok (submsgs m ! submsg_index f) sub)
           else False
       | _ \<Rightarrow> True))"
| "array_ok m f s =
     (case s of
        ArrayPtr a \<Rightarrow>
          (case a of
             None \<Rightarrow> True
           | Some arr \<Rightarrow>
               if arr_data arr = [] then True
               else arr_type arr = upb_desctype_to_fieldtype2 (type f) \<and>
                    (if type f = UPB_DESCRIPTOR_TYPE_GROUP \<or> type f = UPB_DESCRIPTOR_TYPE_MESSAGE
                     then if submsg_index f < length (submsgs m)
                          then \<forall>x \<in> set (arr_data arr).
                                 elem_ok (submsgs m ! submsg_index f)
                                   (type f = UPB_DESCRIPTOR_TYPE_GROUP) x
                          else False
                     else \<forall>x \<in> set (arr_data arr). holds_type (type f) x))
      | _ \<Rightarrow> False)"
| "elem_ok subm null_ok x =
     (case x of
        SubMsg p \<Rightarrow> (case p of None \<Rightarrow> null_ok | Some sub \<Rightarrow> msg_ok subm sub)
      | _ \<Rightarrow> False)"
  by pat_completeness auto
termination
proof -
  have sz: "size (xs ! i) < Suc (size_list size xs)" if "i < length xs"
    for xs :: "upb_msglayout_msginit_v1 list" and i
    using that
  proof (induction xs arbitrary: i)
    case Nil then show ?case by simp
  next
    case (Cons x xs)
    show ?case
    proof (cases i)
      case 0 then show ?thesis by simp
    next
      case (Suc j)
      with Cons.prems have "j < length xs" by simp
      from Cons.IH [OF this] show ?thesis using Suc by simp
    qed
  qed
  have sz2: "size (submsgs m ! i) < size m" if "i < length (submsgs m)"
    for m :: upb_msglayout_msginit_v1 and i
  proof (cases m)
    case (Layout subs fs os p2)
    with that have "i < length subs" by simp
    from sz [OF this] show ?thesis using Layout by simp
  qed
  show ?thesis
    apply (relation "inv_image (less_than <*lex*> less_than)
      (\<lambda>x. case x of
          Inl (Inl (m, msg)) \<Rightarrow> (size m, 2::nat)
        | Inl (Inr (m, msg, f)) \<Rightarrow> (size m, 1)
        | Inr (Inl (m, f, b, s)) \<Rightarrow> (size m, 0)
        | Inr (Inr (Inl (m, f, s))) \<Rightarrow> (size m, 0)
        | Inr (Inr (Inr (subm, b, x))) \<Rightarrow> (size subm, 3))")
    apply (auto simp: sz2)
    done
qed

declare msg_ok.simps [simp del]
declare field_ok.simps [simp del]
declare value_ok.simps [simp del]
declare array_ok.simps [simp del]
declare elem_ok.simps [simp del]

subsection \<open>Example inputs\<close>

text \<open>An allocator that never fails: the first block is at address 4096 and every
  reallocation places the new block right after the old one.\<close>

definition env_bump :: upb_env where
  "env_bump = (\<lambda>p old new. if p = 0 then 4096 else p + old)"

text \<open>A proto3 message with the single field \<open>int32 a = 1\<close>, set to 1; and a proto3
  message whose single field \<open>1\<close> is a submessage of that type, set to that message.\<close>

definition ex_inner_layout :: upb_msglayout_msginit_v1 where
  "ex_inner_layout = Layout []
     [\<lparr>number = 1, offset = 0, hasbit = None, oneof_index = None, submsg_index = 0,
       type = UPB_DESCRIPTOR_TYPE_INT32, label = UPB_LABEL_OPTIONAL\<rparr>] [] False"

definition ex_inner_msg :: msg where
  "ex_inner_msg = Msg (\<lambda>off. Bits32 1) (\<lambda>i. 0) (\<lambda>off. 0)"

text \<open>The same message type with the field unset (zero).\<close>

definition ex_zero_msg :: msg where
  "ex_zero_msg = Msg (\<lambda>off. Bits32 0) (\<lambda>i. 0) (\<lambda>off. 0)"

definition ex_outer_layout :: upb_msglayout_msginit_v1 where
  "ex_outer_layout = Layout [ex_inner_layout]
     [\<lparr>number = 1, offset = 0, hasbit = None, oneof_index = None, submsg_index = 0,
       type = UPB_DESCRIPTOR_TYPE_MESSAGE, label = UPB_LABEL_OPTIONAL\<rparr>] [] False"

definition ex_outer_msg :: msg where
  "ex_outer_msg = Msg (\<lambda>off. SubMsg (Some ex_inner_msg)) (\<lambda>i. 0) (\<lambda>off. 0)"

text \<open>A proto3 message with the fields \<open>string a = 1; int32 b = 2; int32 c = 3\<close>, set to
  \<open>n\<close> bytes \<open>0x41\<close>, 2 and 3: all three are present.\<close>

definition ex_order_layout :: upb_msglayout_msginit_v1 where
  "ex_order_layout = Layout []
     [\<lparr>number = 1, offset = 0, hasbit = None, oneof_index = None, submsg_index = 0,
       type = UPB_DESCRIPTOR_TYPE_STRING, label = UPB_LABEL_OPTIONAL\<rparr>,
      \<lparr>number = 2, offset = 16, hasbit = None, oneof_index = None, submsg_index = 0,
       type = UPB_DESCRIPTOR_TYPE_INT32, label = UPB_LABEL_OPTIONAL\<rparr>,
      \<lparr>number = 3, offset = 20, hasbit = None, oneof_index = None, submsg_index = 0,
       type = UPB_DESCRIPTOR_TYPE_INT32, label = UPB_LABEL_OPTIONAL\<rparr>] [] False"

definition ex_order_msg :: "nat \<Rightarrow> msg" where
  "ex_order_msg n =
     Msg (\<lambda>off. if off = 0 then StringView (replicate n 0x41)
                else if off = 16 then Bits32 2 else Bits32 3) (\<lambda>i. 0) (\<lambda>off. 0)"

text \<open>A proto3 message with the fields \<open>repeated uint64 r = 1; string s = 2\<close>, set to the
  array \<open>vs\<close> and to \<open>n\<close> bytes \<open>0x41\<close>.\<close>

definition ex_packed_layout :: upb_msglayout_msginit_v1 where
  "ex_packed_layout = Layout []
     [\<lparr>number = 1, offset = 0, hasbit = None, oneof_index = None, submsg_index = 0,
       type = UPB_DESCRIPTOR_TYPE_UINT64, label = UPB_LABEL_REPEATED\<rparr>,
      \<lparr>number = 2, offset = 8, hasbit = None, oneof_index = None, submsg_index = 0,
       type = UPB_DESCRIPTOR_TYPE_STRING, label = UPB_LABEL_OPTIONAL\<rparr>] [] False"

definition ex_packed_msg :: "64 word list \<Rightarrow> nat \<Rightarrow> msg" where
  "ex_packed_msg vs n =
     Msg (\<lambda>off. if off = 0 then ArrayPtr (Some (Array UPB_TYPE_UINT64 (map Bits64 vs)))
                else StringView (replicate n 0x41)) (\<lambda>i. 0) (\<lambda>off. 0)"

text \<open>An allocator that denies every request.\<close>

definition env_deny :: upb_env where
  "env_deny = (\<lambda>p old new. 0)"

text \<open>A proto2 message with the single field \<open>optional int32 a = 1\<close>, whose hasbit is
  bit 0 of the record's first byte; the record holds \<open>v\<close> and has the hasbit set or
  clear.\<close>

definition ex_proto2_layout :: upb_msglayout_msginit_v1 where
  "ex_proto2_layout = Layout []
     [\<lparr>number = 1, offset = 4, hasbit = Some 0, oneof_index = None, submsg_index = 0,
       type = UPB_DESCRIPTOR_TYPE_INT32, label = UPB_LABEL_OPTIONAL\<rparr>] [] True"

definition ex_proto2_msg :: "32 word \<Rightarrow> bool \<Rightarrow> msg" where
  "ex_proto2_msg v has = Msg (\<lambda>off. Bits32 v) (\<lambda>i. if has then 1 else 0) (\<lambda>off. 0)"

text \<open>A proto3 message with the single field \<open>int32 a = 1\<close> inside a oneof, whose case
  is stored at offset 4; the record holds \<open>v\<close> and the case \<open>c\<close>.\<close>

definition ex_oneof_layout :: upb_msglayout_msginit_v1 where
  "ex_oneof_layout = Layout []
     [\<lparr>number = 1, offset = 0, hasbit = None, oneof_index = Some 0, submsg_index = 0,
       type = UPB_DESCRIPTOR_TYPE_INT32, label = UPB_LABEL_OPTIONAL\<rparr>]
     [\<lparr>case_offset = 4\<rparr>] False"

definition ex_oneof_msg :: "32 word \<Rightarrow> 32 word \<Rightarrow> msg" where
  "ex_oneof_msg v c = Msg (\<lambda>off. Bits32 v) (\<lambda>i. 0) (\<lambda>off. c)"

section \<open>Varint and zigzag codec\<close>

subsection \<open>Varints\<close>

lemma and_7f: "(w :: 'a::len word) AND 0x7f = take_bit 7 w"
proof -
  have "(0x7f :: 'a word) = mask 7" by (simp add: mask_eq_exp_minus_1)
  then show ?thesis by (simp add: take_bit_eq_mask)
qed

lemma unat_low7: "unat ((b :: byte) AND 0x7f) = unat b mod 128"
proof -
  have "b AND 0x7f = b mod 128" by (simp only: and_7f) (simp add: take_bit_eq_mod)
  then show ?thesis using unat_mod [of b 128] by simp
qed

lemma unat_low7_64: "unat ((v :: 64 word) AND 0x7f) = unat v mod 128"
proof -
  have "v AND 0x7f = v mod 128" by (simp only: and_7f) (simp add: take_bit_eq_mod)
  then show ?thesis using unat_mod [of v 128] by simp
qed

lemma unat_ucast_low7: "unat (ucast ((val :: 64 word) AND 0x7f) :: byte) = unat val mod 128"
proof -
  have "unat (ucast (val AND 0x7f) :: byte) = unat (val AND 0x7f) mod 256"
    by (simp add: unsigned_ucast_eq take_bit_eq_mod)
  also have "\<dots> = unat val mod 128"
    by (simp only: unat_low7_64) (simp add: mod_mod_cancel)
  finally show ?thesis .
qed

lemma or80_low7: "((b :: byte) OR 0x80) AND 0x7f = b AND 0x7f"
  by (simp only: and_7f) (rule bit_word_eqI, auto simp: bit_simps)

lemma or80_bit7: "bit ((b :: byte) OR 0x80) 7"
  by (simp add: bit_simps)

lemma ucast_low7_bit7: "\<not> bit (ucast ((val :: 64 word) AND 0x7f) :: byte) 7"
  by (simp only: and_7f) (simp add: bit_simps)

lemma unat_drop7: "unat (drop_bit 7 (val :: 64 word)) = unat val div 128"
proof -
  have "drop_bit 7 val = val div 128" by (simp add: drop_bit_eq_div)
  then show ?thesis using unat_div [of val 128] by simp
qed

lemma varint_value_Cons_or80:
  "varint_value ((b OR 0x80) # bs) = varint_value (b # bs)"
  by (simp only: varint_value.simps or80_low7)

lemma varint_loop_unfold:
  "val \<noteq> 0 \<Longrightarrow> varint_loop val =
     (if drop_bit 7 val \<noteq> 0 then ucast (val AND 0x7f) OR 0x80 else ucast (val AND 0x7f))
       # varint_loop (drop_bit 7 val)"
  by (subst varint_loop.simps) (simp add: Let_def)

lemma varint_loop_0: "varint_loop 0 = []"
  by (subst varint_loop.simps) simp

lemma varint_loop_value: "varint_value (varint_loop val) = unat val"
proof (induction val rule: varint_loop.induct)
  case (1 val)
  show ?case
  proof (cases "val = 0")
    case True
    then show ?thesis by (simp add: varint_loop_0)
  next
    case False
    have IH: "varint_value (varint_loop (drop_bit 7 val)) = unat val div 128"
      using "1.IH" [OF False refl refl refl] by (simp only: unat_drop7)
    have "varint_value (varint_loop val)
            = varint_value (ucast (val AND 0x7f) # varint_loop (drop_bit 7 val))"
      by (simp add: varint_loop_unfold [OF False] varint_value_Cons_or80 del: varint_value.simps)
    also have "\<dots> = unat val mod 128 + 128 * (unat val div 128)"
      by (simp only: varint_value.simps IH unat_low7 unat_ucast_low7 mod_mod_trivial)
    finally show ?thesis by simp
  qed
qed

lemma varint_value_bound: "varint_value bs < 128 ^ length bs"
proof (induction bs)
  case Nil then show ?case by simp
next
  case (Cons b bs)
  have "unat (b AND 0x7f) < 128" by (simp add: unat_low7)
  moreover have "varint_value bs + 1 \<le> 128 ^ length bs" using Cons.IH by simp
  then have "128 * varint_value bs + 128 \<le> 128 * 128 ^ length bs" by simp
  ultimately show ?case by simp
qed

lemma varint_loop_length: "unat val < 128 ^ k \<Longrightarrow> length (varint_loop val) \<le> k"
proof (induction val arbitrary: k rule: varint_loop.induct)
  case (1 val)
  show ?case
  proof (cases "val = 0")
    case True then show ?thesis by (simp add: varint_loop_0)
  next
    case False
    then have pos: "0 < unat val" by (simp add: unat_gt_0)
    with "1.prems" obtain j where k: "k = Suc j" by (cases k) auto
    have "unat (drop_bit 7 val) < 128 ^ j"
      using "1.prems" k by (simp only: unat_drop7) (simp add: less_mult_imp_div_less mult.commute)
    from "1.IH" [OF False refl refl refl this]
    show ?thesis using k by (simp add: varint_loop_unfold [OF False])
  qed
qed

lemma varint_loop_length_10: "length (varint_loop val) \<le> 10"
proof -
  have "unat val < 2 ^ 64" using unsigned_less [of val] by simp
  then have "unat val < 128 ^ 10" by simp
  then show ?thesis by (rule varint_loop_length)
qed

lemma continued_Cons:
  "continued (b # bs) \<longleftrightarrow> (if bs = [] then \<not> bit b 7 else bit b 7 \<and> continued bs)"
  by (auto simp: continued_def)

lemma varint_loop_continued:
  "val \<noteq> 0 \<Longrightarrow> continued (varint_loop val) \<and> last (varint_loop val) AND 0x7f \<noteq> 0"
proof (induction val rule: varint_loop.induct)
  case (1 val)
  note nz = \<open>val \<noteq> 0\<close>
  show ?case
  proof (cases "drop_bit 7 val = 0")
    case True
    have "unat val div 128 = 0" using True unat_drop7 [of val] by simp
    then have small: "unat val mod 128 = unat val" by simp
    have "unat (ucast (val AND 0x7f) :: byte) \<noteq> 0"
      using nz by (simp only: unat_ucast_low7 small) (simp add: unat_eq_0)
    then have "(ucast (val AND 0x7f) :: byte) AND 0x7f \<noteq> 0"
      by (metis unat_low7 unat_ucast_low7 mod_mod_trivial unat_eq_0 small)
    then show ?thesis
      using True by (simp add: varint_loop_unfold [OF nz] varint_loop_0 continued_def ucast_low7_bit7)
  next
    case False
    from "1.IH" [OF nz refl refl refl False]
    have IH: "continued (varint_loop (drop_bit 7 val))"
      "last (varint_loop (drop_bit 7 val)) AND 0x7f \<noteq> 0" by simp_all
    then have ne: "varint_loop (drop_bit 7 val) \<noteq> []" by (simp add: continued_def)
    show ?thesis
      using False IH ne
      by (simp add: varint_loop_unfold [OF nz] continued_Cons or80_bit7)
  qed
qed

lemma varint_value_lower:
  "bs \<noteq> [] \<Longrightarrow> last bs AND 0x7f \<noteq> 0 \<Longrightarrow> 128 ^ (length bs - 1) \<le> varint_value bs"
proof (induction bs)
  case Nil then show ?case by simp
next
  case (Cons b bs)
  show ?case
  proof (cases "bs = []")
    case True
    with Cons.prems have "unat (b AND 0x7f) \<noteq> 0" by (simp add: unat_eq_0)
    then show ?thesis using True by simp
  next
    case False
    with Cons have "128 ^ (length bs - 1) \<le> varint_value bs" by simp
    then have "128 * 128 ^ (length bs - 1) \<le> 128 * varint_value bs" by simp
    moreover have "length bs = Suc (length bs - 1)" using False by (cases bs) auto
    then have "(128::nat) ^ length bs = 128 * 128 ^ (length bs - 1)" by (metis power_Suc)
    ultimately show ?thesis by simp
  qed
qed

lemma byte_eq_low7_bit7:
  "(a :: byte) AND 0x7f = b AND 0x7f \<Longrightarrow> bit a 7 = bit b 7 \<Longrightarrow> a = b"
proof (rule bit_word_eqI)
  fix n assume "n < LENGTH(8)"
  assume low: "a AND 0x7f = b AND 0x7f" and top: "bit a 7 = bit b 7"
  from low have "bit (take_bit 7 a) n = bit (take_bit 7 b) n" by (simp only: and_7f)
  then have "n < 7 \<Longrightarrow> bit a n = bit b n" by (simp add: bit_simps)
  moreover have "n = 7 \<or> n < 7" using \<open>n < LENGTH(8)\<close> by auto
  ultimately show "bit a n = bit b n" using top by auto
qed

lemma continued_unique:
  "continued bs \<Longrightarrow> continued bs' \<Longrightarrow> length bs = length bs' \<Longrightarrow>
   varint_value bs = varint_value bs' \<Longrightarrow> bs = bs'"
proof (induction bs arbitrary: bs')
  case Nil then show ?case by simp
next
  case (Cons b bs)
  then obtain b' cs where bs': "bs' = b' # cs" by (cases bs') auto
  have len: "length bs = length cs" using Cons.prems bs' by simp
  have lo: "unat (b AND 0x7f) < 128" "unat (b' AND 0x7f) < 128"
    by (simp_all add: unat_low7)
  have eq: "unat (b AND 0x7f) + 128 * varint_value bs = unat (b' AND 0x7f) + 128 * varint_value cs"
    using Cons.prems bs' by simp
  from eq lo have d: "unat (b AND 0x7f) = unat (b' AND 0x7f)"
    by (metis mod_mult_self2 mod_less)
  with eq have r: "varint_value bs = varint_value cs" by simp
  from d have low: "b AND 0x7f = b' AND 0x7f" by (simp add: word_unat_eq_iff)
  have emp: "bs = [] \<longleftrightarrow> cs = []" using len by auto
  have top: "bit b 7 = bit b' 7"
    using Cons.prems(1,2) emp unfolding bs' continued_Cons by (cases "bs = []") auto
  have "b = b'" using low top by (rule byte_eq_low7_bit7)
  moreover have "bs = cs"
  proof (cases "bs = []")
    case True then show ?thesis using len by simp
  next
    case False
    then have "cs \<noteq> []" using len by auto
    then show ?thesis
      using Cons.IH [of cs] Cons.prems(1,2) False len r unfolding bs' continued_Cons by auto
  qed
  ultimately show ?case using bs' by simp
qed

lemma upb_encode_varint_small: "val < 128 \<Longrightarrow> upb_encode_varint val = [ucast val]"
  by (simp add: upb_encode_varint_def)

lemma is_varint_of_iff: "is_varint_of bs v \<longleftrightarrow> continued bs \<and> varint_value bs = unat v"
  by (auto simp: is_varint_of_def continued_def)

lemma small_low7: "v < 128 \<Longrightarrow> (v :: 64 word) AND 0x7f = v"
proof -
  assume "v < 128"
  then have "v < 2 ^ 7" by simp
  then have "v AND mask 7 = v" by (rule less_mask_eq)
  then show ?thesis by (simp add: mask_eq_exp_minus_1)
qed

lemma upb_encode_varint_is_varint: "is_varint_of (upb_encode_varint v) v"
proof (cases "v < 128")
  case True
  then have lt: "unat v < 128" by (simp add: word_less_nat_alt)
  have c: "(ucast v :: byte) = ucast (v AND 0x7f)" by (simp only: small_low7 [OF True])
  have nb: "\<not> bit (ucast v :: byte) 7" by (simp only: c ucast_low7_bit7 not_False_eq_True)
  have "unat (ucast v :: byte) = unat v mod 128" by (simp only: c unat_ucast_low7)
  then have u: "unat (ucast v :: byte) = unat v" using lt by simp
  have "varint_value [ucast v :: byte] = unat v"
    using u lt by (simp add: unat_low7)
  then show ?thesis
    using nb True by (simp add: is_varint_of_def upb_encode_varint_def)
next
  case False
  then have "v \<noteq> 0" by auto
  from varint_loop_continued [OF this] varint_loop_value [of v] False
  show ?thesis by (simp add: is_varint_of_iff upb_encode_varint_def)
qed

lemma upb_encode_varint_length: "1 \<le> length (upb_encode_varint v) \<and> length (upb_encode_varint v) \<le> 10"
proof -
  have "upb_encode_varint v \<noteq> []"
    using upb_encode_varint_is_varint [of v] by (simp add: is_varint_of_def)
  then have "1 \<le> length (upb_encode_varint v)" by (cases "upb_encode_varint v") auto
  moreover have "length (upb_encode_varint v) \<le> 10"
    using varint_loop_length_10 [of v] by (simp add: upb_encode_varint_def)
  ultimately show ?thesis ..
qed

lemma upb_encode_varint_shortest:
  assumes "bs \<noteq> []" and "varint_value bs = unat v"
  shows "length (upb_encode_varint v) \<le> length bs"
proof (cases "v < 128")
  case True
  with assms(1) show ?thesis by (cases bs) (auto simp: upb_encode_varint_def)
next
  case False
  then have nz: "v \<noteq> 0" by auto
  have enc: "upb_encode_varint v = varint_loop v" using False by (simp add: upb_encode_varint_def)
  from varint_loop_continued [OF nz]
  have "varint_loop v \<noteq> []" "last (varint_loop v) AND 0x7f \<noteq> 0"
    by (simp_all add: continued_def)
  then have "128 ^ (length (varint_loop v) - 1) \<le> varint_value (varint_loop v)"
    by (rule varint_value_lower)
  also have "\<dots> = varint_value bs" using assms(2) by (simp add: varint_loop_value)
  also have "\<dots> < 128 ^ length bs" by (rule varint_value_bound)
  finally have "length (varint_loop v) - 1 < length bs" by simp
  then show ?thesis using enc by simp
qed


text \<open>Claim C7. For every 64-bit value \<open>v\<close>, \<open>upb_encode_varint v\<close> is a base-128
  little-endian encoding of \<open>v\<close> (every byte but the last has its top bit set, the last
  has it clear, and the low seven bits of the bytes denote \<open>v\<close>), it has between 1 and
  10 bytes, no encoding of \<open>v\<close> is shorter, and it is the only encoding of \<open>v\<close> of its
  length; \<open>0\<close> encodes as \<open>[0x00]\<close>, \<open>127\<close> as \<open>[0x7F]\<close> and \<open>128\<close> as \<open>[0x80, 0x01]\<close>.\<close>

theorem upb_encode_varint_minimal:
  "is_varint_of (upb_encode_varint v) v
   \<and> 1 \<le> length (upb_encode_varint v) \<and> length (upb_encode_varint v) \<le> 10
   \<and> (\<forall>bs. is_varint_of bs v \<longrightarrow>
          length (upb_encode_varint v) \<le> length bs
          \<and> (length bs = length (upb_encode_varint v) \<longrightarrow> bs = upb_encode_varint v))
   \<and> upb_encode_varint 0 = [0x00]
   \<and> upb_encode_varint 127 = [0x7F]
   \<and> upb_encode_varint 128 = [0x80, 0x01]"
proof -
  have a: "is_varint_of (upb_encode_varint v) v" by (rule upb_encode_varint_is_varint)
  have b: "length (upb_encode_varint v) \<le> length bs
          \<and> (length bs = length (upb_encode_varint v) \<longrightarrow> bs = upb_encode_varint v)"
    if h: "is_varint_of bs v" for bs
  proof
    from h show "length (upb_encode_varint v) \<le> length bs"
      by (intro upb_encode_varint_shortest) (simp_all add: is_varint_of_def)
    show "length bs = length (upb_encode_varint v) \<longrightarrow> bs = upb_encode_varint v"
      using h a by (auto simp: is_varint_of_iff intro: continued_unique)
  qed
  have c0: "upb_encode_varint 0 = [0x00]" by (simp add: upb_encode_varint_def)
  have c1: "upb_encode_varint 127 = [0x7F]" by (simp add: upb_encode_varint_def)
  have c2: "upb_encode_varint 128 = [0x80, 0x01]"
    by (simp add: upb_encode_varint_def varint_loop_unfold varint_loop_0)
  from a upb_encode_varint_length [of v] b c0 c1 c2 show ?thesis by blast
qed

theorem upb_encode_varint_minimal_witness:
  "is_varint_of [0xAC, 0x82, 0x00] 300 \<and> length (upb_encode_varint 300) \<le> 3
   \<and> upb_encode_varint 300 = [0xAC, 0x02]"
proof -
  have h: "is_varint_of [0xAC, 0x82, 0x00] 300"
    by (simp add: is_varint_of_def)
  have e: "upb_encode_varint 300 = [0xAC, 0x02]"
    by (simp add: upb_encode_varint_def varint_loop_unfold varint_loop_0)
  from upb_encode_varint_minimal [of 300] h
  have "length (upb_encode_varint 300) \<le> length [0xAC :: byte, 0x82, 0x00]" by blast
  with h e show ?thesis by simp
qed

subsection \<open>Zigzag\<close>

lemma sdb31: "signed_drop_bit 31 (n :: 32 word) = (if bit n 31 then - 1 else 0)"
  by (rule bit_word_eqI) (auto simp: bit_simps not_less_eq_eq)

lemma sdb63: "signed_drop_bit 63 (n :: 64 word) = (if bit n 63 then - 1 else 0)"
  by (rule bit_word_eqI) (auto simp: bit_simps not_less_eq_eq)

lemma neg_and1: "- ((u :: 'a::len word) AND 1) = (if bit u 0 then - 1 else 0)"
  by (auto simp: and_one_eq bit_0 mod_2_eq_odd)

lemma bit_double_Suc: "bit ((n::'a::len word) * 2) (Suc j) \<longleftrightarrow> Suc j < LENGTH('a) \<and> bit n j"
proof -
  have "bit (push_bit 1 n) (Suc j) \<longleftrightarrow> Suc j < LENGTH('a) \<and> bit n j"
    by (simp only: bit_push_bit_iff) (auto simp: bit_imp_le_length dest: bit_imp_possible_bit simp: possible_bit_word)
  then show ?thesis by (simp add: push_bit_eq_mult)
qed

lemma zz32: "zigzagDecode32 (upb_zzencode_32 n) = n"
proof (rule bit_word_eqI)
  fix k assume k: "k < LENGTH(32)"
  define e where "e = upb_zzencode_32 n"
  have e0: "bit e 0 = bit n 31"
    unfolding e_def upb_zzencode_32_def sdb31 by (simp add: bit_simps bit_0)
  have eS: "bit e (Suc j) = (Suc j < 32 \<and> (bit n j \<noteq> bit n 31))" for j
    unfolding e_def upb_zzencode_32_def sdb31 by (auto simp: bit_simps bit_double_Suc dest: bit_imp_le_length)
  have "bit (zigzagDecode32 e) k = (bit e (Suc k) \<noteq> bit e 0)"
    unfolding zigzagDecode32_def neg_and1 using k by (auto simp: bit_simps)
  also have "\<dots> = bit n k"
    unfolding e0 eS using k by (cases "k = 31") (auto simp: less_Suc_eq)
  finally show "bit (zigzagDecode32 (upb_zzencode_32 n)) k = bit n k" unfolding e_def .
qed

lemma zz64: "zigzagDecode64 (upb_zzencode_64 n) = n"
proof (rule bit_word_eqI)
  fix k assume k: "k < LENGTH(64)"
  define e where "e = upb_zzencode_64 n"
  have e0: "bit e 0 = bit n 63"
    unfolding e_def upb_zzencode_64_def sdb63 by (simp add: bit_simps bit_0)
  have eS: "bit e (Suc j) = (Suc j < 64 \<and> (bit n j \<noteq> bit n 63))" for j
    unfolding e_def upb_zzencode_64_def sdb63 by (auto simp: bit_simps bit_double_Suc dest: bit_imp_le_length)
  have "bit (zigzagDecode64 e) k = (bit e (Suc k) \<noteq> bit e 0)"
    unfolding zigzagDecode64_def neg_and1 using k by (auto simp: bit_simps)
  also have "\<dots> = bit n k"
    unfolding e0 eS using k by (cases "k = 63") (auto simp: less_Suc_eq)
  finally show "bit (zigzagDecode64 (upb_zzencode_64 n)) k = bit n k" unfolding e_def .
qed

lemma zz32_enc: "upb_zzencode_32 (zigzagDecode32 u) = u"
proof (rule bit_word_eqI)
  fix k assume k: "k < LENGTH(32)"
  define d where "d = zigzagDecode32 u"
  have dk: "bit d j = (j < 32 \<and> (bit u (Suc j) \<noteq> bit u 0))" for j
    unfolding d_def zigzagDecode32_def neg_and1 by (auto simp: bit_simps bit_double_Suc dest: bit_imp_le_length)
  have d31: "bit d 31 = bit u 0"
    unfolding dk by (auto dest: bit_imp_le_length)
  show "bit (upb_zzencode_32 (zigzagDecode32 u)) k = bit u k"
  proof (cases k)
    case 0
    then show ?thesis
      unfolding d_def [symmetric] upb_zzencode_32_def sdb31 d31 by (simp add: bit_simps bit_0)
  next
    case (Suc j)
    then show ?thesis
      unfolding d_def [symmetric] upb_zzencode_32_def sdb31 d31 using k
      by (auto simp: bit_simps dk bit_double_Suc)
  qed
qed

lemma zz64_enc: "upb_zzencode_64 (zigzagDecode64 u) = u"
proof (rule bit_word_eqI)
  fix k assume k: "k < LENGTH(64)"
  define d where "d = zigzagDecode64 u"
  have dk: "bit d j = (j < 64 \<and> (bit u (Suc j) \<noteq> bit u 0))" for j
    unfolding d_def zigzagDecode64_def neg_and1 by (auto simp: bit_simps bit_double_Suc dest: bit_imp_le_length)
  have d63: "bit d 63 = bit u 0"
    unfolding dk by (auto dest: bit_imp_le_length)
  show "bit (upb_zzencode_64 (zigzagDecode64 u)) k = bit u k"
  proof (cases k)
    case 0
    then show ?thesis
      unfolding d_def [symmetric] upb_zzencode_64_def sdb63 d63 by (simp add: bit_simps bit_0)
  next
    case (Suc j)
    then show ?thesis
      unfolding d_def [symmetric] upb_zzencode_64_def sdb63 d63 using k
      by (auto simp: bit_simps dk bit_double_Suc)
  qed
qed

lemma bij_zz32: "bij upb_zzencode_32"
  by (rule bijI') (metis zz32, metis zz32_enc)

lemma bij_zz64: "bij upb_zzencode_64"
  by (rule bijI') (metis zz64, metis zz64_enc)

text \<open>Claim C8. \<open>upb_zzencode_32 n\<close> is \<open>(n << 1) XOR (n >> 31)\<close> with the arithmetic
  right shift, and \<open>upb_zzencode_64\<close> the same at width 64 with shift 63. Both are
  bijections, inverted by zigzag decoding: decoding the encoding of \<open>n\<close> gives \<open>n\<close> for
  every \<open>n\<close>, also for \<open>INT32_MIN\<close>; \<open>-1\<close> maps to \<open>1\<close> and \<open>1\<close> to \<open>2\<close>.\<close>

theorem zigzag_bijection:
  "upb_zzencode_32 n = push_bit 1 n XOR signed_drop_bit 31 n
   \<and> upb_zzencode_64 m = push_bit 1 m XOR signed_drop_bit 63 m
   \<and> zigzagDecode32 (upb_zzencode_32 n) = n
   \<and> zigzagDecode64 (upb_zzencode_64 m) = m
   \<and> bij upb_zzencode_32 \<and> bij upb_zzencode_64
   \<and> upb_zzencode_32 (- 2147483648) = 4294967295
   \<and> zigzagDecode32 (upb_zzencode_32 (- 2147483648)) = - 2147483648
   \<and> upb_zzencode_32 (- 1) = 1
   \<and> upb_zzencode_32 1 = 2"
proof -
  have d32: "upb_zzencode_32 n = push_bit 1 n XOR signed_drop_bit 31 n"
    by (simp only: upb_zzencode_32_def)
  have d64: "upb_zzencode_64 m = push_bit 1 m XOR signed_drop_bit 63 m"
    by (simp only: upb_zzencode_64_def)
  have c1: "upb_zzencode_32 (- 2147483648) = 4294967295"
    and c2: "upb_zzencode_32 (- 1) = 1" and c3: "upb_zzencode_32 1 = 2"
    by (simp_all add: upb_zzencode_32_def sdb31)
  have dm: "zigzagDecode32 (upb_zzencode_32 (- 2147483648)) = - 2147483648"
    by (rule zz32)
  show ?thesis
    by (intro conjI d32 d64 zz32 zz64 bij_zz32 bij_zz64 c1 dm c2 c3)
qed

section \<open>The growable reverse buffer\<close>

lemma bytes_between_append:
  "p \<le> q \<Longrightarrow> q \<le> r \<Longrightarrow> bytes_between h p r = bytes_between h p q @ bytes_between h q r"
proof -
  assume "p \<le> q" "q \<le> r"
  then have "[p..<r] = [p..<q] @ [q..<r]"
    using upt_add_eq_append [of p q "r - q"] by simp
  then show ?thesis by (simp add: bytes_between_def)
qed

lemma bytes_between_cong:
  "(\<And>a. p \<le> a \<Longrightarrow> a < q \<Longrightarrow> h' a = h a) \<Longrightarrow> bytes_between h' p q = bytes_between h p q"
  by (simp add: bytes_between_def)

lemma length_bytes_between [simp]: "length (bytes_between h p q) = q - p"
  by (simp add: bytes_between_def)

lemma bytes_between_memcpy: "bytes_between (memcpy h p data) p (p + length data) = data"
  by (rule nth_equalityI) (simp_all add: bytes_between_def memcpy_def)

lemma bytes_between_eq_data:
  "(\<And>i. i < length data \<Longrightarrow> h (p + i) = data ! i) \<Longrightarrow> q = p + length data \<Longrightarrow> bytes_between h p q = data"
  by (rule nth_equalityI) (simp_all add: bytes_between_def)

lemma reserve_nogrow:
  "bytes \<le> ptr e - buf e \<Longrightarrow> upb_encode_reserve env e bytes = Inr (e\<lparr>ptr := ptr e - bytes\<rparr>)"
  by (simp add: upb_encode_reserve_def)

lemma put_bytes_nogrow:
  "length data \<le> ptr e - buf e \<Longrightarrow>
   upb_put_bytes env e data =
     Inr (e\<lparr>ptr := ptr e - length data, heap := memcpy (heap e) (ptr e - length data) data\<rparr>)"
  by (simp add: upb_put_bytes_def reserve_nogrow)

lemma put_varint_nogrow:
  "10 \<le> ptr e - buf e \<Longrightarrow>
   upb_put_varint env e val =
     Inr (e\<lparr>ptr := ptr e - 10 + 10 - length (upb_encode_varint val),
            heap := memmove (memcpy (heap e) (ptr e - 10) (upb_encode_varint val))
                      (ptr e - 10 + 10 - length (upb_encode_varint val)) (ptr e - 10)
                      (length (upb_encode_varint val))\<rparr>)"
  by (simp add: upb_put_varint_def reserve_nogrow UPB_PB_VARINT_MAX_LEN_def Let_def)


lemma roundup_loop_ge: "0 < ret \<Longrightarrow> bytes \<le> upb_roundup_pow2_loop ret bytes"
proof (induction ret bytes rule: upb_roundup_pow2_loop.induct)
  case (1 ret bytes)
  show ?case
  proof (cases "ret < bytes")
    case True
    with 1 show ?thesis by (subst upb_roundup_pow2_loop.simps) simp
  next
    case False
    then show ?thesis by (subst upb_roundup_pow2_loop.simps) simp
  qed
qed

lemma roundup_pow2_ge: "bytes \<le> upb_roundup_pow2 bytes"
  by (simp add: upb_roundup_pow2_def roundup_loop_ge)

lemma growbuffer_cases:
  "upb_encode_growbuffer env e bytes =
     (if env (buf e) (limit e - buf e) (upb_roundup_pow2 (bytes + (limit e - ptr e))) = 0
      then Inl (AllocationFailure (buf e) (limit e - buf e)
                 (upb_roundup_pow2 (bytes + (limit e - ptr e))))
      else Inr (e\<lparr>heap := memmove (snd (upb_env_realloc env (heap e) (buf e) (limit e - buf e)
                                    (upb_roundup_pow2 (bytes + (limit e - ptr e)))))
                                 (limit e - (limit e - buf e)) (buf e) (limit e - buf e),
                ptr := env (buf e) (limit e - buf e) (upb_roundup_pow2 (bytes + (limit e - ptr e)))
                       + upb_roundup_pow2 (bytes + (limit e - ptr e)) - (limit e - ptr e),
                limit := env (buf e) (limit e - buf e) (upb_roundup_pow2 (bytes + (limit e - ptr e)))
                       + upb_roundup_pow2 (bytes + (limit e - ptr e)),
                buf := env (buf e) (limit e - buf e) (upb_roundup_pow2 (bytes + (limit e - ptr e)))\<rparr>))"
  by (simp add: upb_encode_growbuffer_def upb_env_realloc_def Let_def)

lemma growbuffer_Inr:
  assumes "upb_encode_growbuffer env e bytes = Inr e'" and "wf_state e"
  shows "wf_state e'" and "used e' = used e" and "bytes \<le> ptr e' - buf e'"
proof -
  define n where "n = upb_roundup_pow2 (bytes + (limit e - ptr e))"
  define b where "b = env (buf e) (limit e - buf e) n"
  have ge: "bytes + (limit e - ptr e) \<le> n" unfolding n_def by (rule roundup_pow2_ge)
  from assms(1) have nz: "b \<noteq> 0"
    and p: "ptr e' = b + n - (limit e - ptr e)" and l: "limit e' = b + n" and b: "buf e' = b"
    unfolding b_def n_def by (auto simp: growbuffer_cases split: if_splits)
  show "wf_state e'" unfolding wf_state_def p l b using ge nz by auto
  show "used e' = used e" unfolding used_def p l b using ge assms(2) by (auto simp: wf_state_def)
  show "bytes \<le> ptr e' - buf e'" unfolding p l b using ge by auto
qed

lemma growbuffer_not_Undefined: "upb_encode_growbuffer env e bytes \<noteq> Inl Undefined"
  by (simp add: growbuffer_cases)

lemma growbuffer_total:
  assumes "\<forall>p old new. env p old new \<noteq> 0"
  shows "upb_encode_growbuffer env e bytes \<noteq> Inl err"
proof -
  have "env (buf e) (limit e - buf e) (upb_roundup_pow2 (bytes + (limit e - ptr e))) \<noteq> 0"
    using assms by blast
  then show ?thesis by (simp add: growbuffer_cases)
qed

lemma reserve_Inr:
  assumes "upb_encode_reserve env e bytes = Inr e'" and "wf_state e"
  shows "wf_state e'" and "used e' = used e + bytes"
  using assms growbuffer_Inr [of env e bytes]
  by (auto simp: upb_encode_reserve_def wf_state_def used_def split: if_splits sum.splits)

lemma reserve_not_Undefined: "upb_encode_reserve env e bytes \<noteq> Inl Undefined"
  using growbuffer_not_Undefined [of env e bytes]
  by (auto simp: upb_encode_reserve_def split: sum.splits)

lemma reserve_total:
  "\<forall>p old new. env p old new \<noteq> 0 \<Longrightarrow> upb_encode_reserve env e bytes \<noteq> Inl err"
  using growbuffer_total [of env e bytes]
  by (auto simp: upb_encode_reserve_def split: sum.splits)

lemma put_bytes_Inr:
  assumes "upb_put_bytes env e data = Inr e'" and "wf_state e"
  shows "wf_state e'" and "used e' = used e + length data"
  using assms reserve_Inr [of env e "length data"]
  by (auto simp: upb_put_bytes_def wf_state_def used_def split: sum.splits)

lemma put_bytes_not_Undefined: "upb_put_bytes env e data \<noteq> Inl Undefined"
  using reserve_not_Undefined [of env e "length data"]
  by (auto simp: upb_put_bytes_def split: sum.splits)

lemma put_bytes_total:
  "\<forall>p old new. env p old new \<noteq> 0 \<Longrightarrow> upb_put_bytes env e data \<noteq> Inl err"
  using reserve_total [of env e "length data"]
  by (auto simp: upb_put_bytes_def split: sum.splits)

lemma put_varint_Inr:
  assumes "upb_put_varint env e val = Inr e'" and "wf_state e"
  shows "wf_state e'" and "used e' = used e + length (upb_encode_varint val)"
proof -
  from assms(1) obtain e1 where r: "upb_encode_reserve env e 10 = Inr e1"
    and p: "ptr e' = ptr e1 + 10 - length (upb_encode_varint val)"
    and l: "limit e' = limit e1" and b: "buf e' = buf e1"
    by (auto simp: upb_put_varint_def UPB_PB_VARINT_MAX_LEN_def Let_def split: sum.splits)
  from reserve_Inr [OF r assms(2)] have w: "wf_state e1" and u: "used e1 = used e + 10" .
  have len: "1 \<le> length (upb_encode_varint val)" "length (upb_encode_varint val) \<le> 10"
    using upb_encode_varint_length [of val] by simp_all
  show "wf_state e'" using w u len by (auto simp: wf_state_def used_def p l b)
  show "used e' = used e + length (upb_encode_varint val)"
    using w u len by (auto simp: wf_state_def used_def p l b)
qed

lemma put_varint_not_Undefined: "upb_put_varint env e val \<noteq> Inl Undefined"
  using reserve_not_Undefined [of env e 10]
  by (auto simp: upb_put_varint_def UPB_PB_VARINT_MAX_LEN_def Let_def split: sum.splits)

lemma put_varint_total:
  "\<forall>p old new. env p old new \<noteq> 0 \<Longrightarrow> upb_put_varint env e val \<noteq> Inl err"
  using reserve_total [of env e 10]
  by (auto simp: upb_put_varint_def UPB_PB_VARINT_MAX_LEN_def Let_def split: sum.splits)


lemma memmove_in: "dst \<le> a \<Longrightarrow> a < dst + n \<Longrightarrow> memmove h dst src n a = h (src + (a - dst))"
  by (simp add: memmove_def)

lemma memmove_out: "a < dst \<or> dst + n \<le> a \<Longrightarrow> memmove h dst src n a = h a"
  by (auto simp: memmove_def)

lemma memcpy_in: "dst \<le> a \<Longrightarrow> a < dst + length data \<Longrightarrow> memcpy h dst data a = data ! (a - dst)"
  by (simp add: memcpy_def)

lemma memcpy_out: "a < dst \<or> dst + length data \<le> a \<Longrightarrow> memcpy h dst data a = h a"
  by (auto simp: memcpy_def)

lemma written_extend:
  assumes "ptr e \<le> limit e" and "n \<le> ptr e"
    and "limit e' = limit e" and "ptr e' = ptr e - n" and "length data = n"
    and "\<And>i. i < n \<Longrightarrow> heap e' (ptr e - n + i) = data ! i"
    and "\<And>a. ptr e \<le> a \<Longrightarrow> a < limit e \<Longrightarrow> heap e' a = heap e a"
  shows "written e' = data @ written e"
proof -
  have "written e' = bytes_between (heap e') (ptr e - n) (ptr e) @ bytes_between (heap e') (ptr e) (limit e)"
    unfolding written_def assms(3,4) using assms(1,2) by (intro bytes_between_append) auto
  moreover have "bytes_between (heap e') (ptr e - n) (ptr e) = data"
    using assms(2,5,6) by (intro bytes_between_eq_data) auto
  moreover have "bytes_between (heap e') (ptr e) (limit e) = written e"
    unfolding written_def using assms(7) by (intro bytes_between_cong) auto
  ultimately show ?thesis by simp
qed

lemma put_bytes_frame:
  assumes "wf_state e" and "length data \<le> ptr e - buf e"
  shows "\<exists>e'. upb_put_bytes env e data = Inr e' \<and> buf e' = buf e \<and> limit e' = limit e
              \<and> ptr e' = ptr e - length data \<and> written e' = data @ written e"
proof -
  let ?e' = "e\<lparr>ptr := ptr e - length data, heap := memcpy (heap e) (ptr e - length data) data\<rparr>"
  have le: "length data \<le> ptr e" using assms(2) by simp
  have "written ?e' = data @ written e"
    using assms(1) le by (intro written_extend [where n = "length data"]) (auto simp: wf_state_def memcpy_def)
  then show ?thesis using put_bytes_nogrow [OF assms(2), of env] by simp
qed

lemma put_varint_frame:
  assumes "wf_state e" and "10 \<le> ptr e - buf e"
  shows "\<exists>e'. upb_put_varint env e val = Inr e' \<and> buf e' = buf e \<and> limit e' = limit e
              \<and> ptr e' = ptr e - length (upb_encode_varint val)
              \<and> written e' = upb_encode_varint val @ written e"
proof -
  define enc where "enc = upb_encode_varint val"
  define e' where "e' = e\<lparr>ptr := ptr e - 10 + 10 - length enc,
            heap := memmove (memcpy (heap e) (ptr e - 10) enc) (ptr e - 10 + 10 - length enc) (ptr e - 10) (length enc)\<rparr>"
  have len: "1 \<le> length enc" "length enc \<le> 10"
    using upb_encode_varint_length [of val] by (simp_all add: enc_def)
  have le: "10 \<le> ptr e" using assms(2) by simp
  have r: "upb_put_varint env e val = Inr e'"
    unfolding e'_def enc_def by (rule put_varint_nogrow [OF assms(2)])
  have p: "ptr e' = ptr e - length enc" using le len by (simp add: e'_def)
  have "written e' = enc @ written e"
  proof (rule written_extend [where n = "length enc"])
    show "ptr e \<le> limit e" using assms(1) by (simp add: wf_state_def)
    show "length enc \<le> ptr e" using le len by simp
    show "limit e' = limit e" by (simp add: e'_def)
    show "ptr e' = ptr e - length enc" by (rule p)
    show "length enc = length enc" ..
    have h: "heap e' = memmove (memcpy (heap e) (ptr e - 10) enc) (ptr e - length enc) (ptr e - 10) (length enc)"
      using le len by (simp add: e'_def)
    show "heap e' (ptr e - length enc + i) = enc ! i" if "i < length enc" for i
    proof -
      have "heap e' (ptr e - length enc + i) = memcpy (heap e) (ptr e - 10) enc (ptr e - 10 + i)"
        unfolding h using that by (subst memmove_in) auto
      also have "\<dots> = enc ! i" using that by (subst memcpy_in) auto
      finally show ?thesis .
    qed
    show "heap e' a = heap e a" if "ptr e \<le> a" "a < limit e" for a
    proof -
      have "heap e' a = memcpy (heap e) (ptr e - 10) enc a"
        unfolding h using that le len by (subst memmove_out) auto
      also have "\<dots> = heap e a" using that le len by (subst memcpy_out) auto
      finally show ?thesis .
    qed
  qed
  then show ?thesis using r p by (simp add: e'_def enc_def)
qed

lemma length_le_bytes [simp]: "length (le_bytes n w) = n"
  by (simp add: le_bytes_def)


lemma reserve_frame:
  assumes "wf_state e" and "n \<le> ptr e - buf e"
  shows "\<exists>e'. upb_encode_reserve env e n = Inr e' \<and> wf_state e' \<and> buf e' = buf e
              \<and> limit e' = limit e \<and> ptr e' = ptr e - n
              \<and> bytes_between (heap e') (ptr e) (limit e) = written e"
  using assms by (auto simp: reserve_nogrow wf_state_def written_def)

lemma put_bytes_frame_wf:
  assumes "wf_state e" and "length data \<le> ptr e - buf e"
  shows "\<exists>e'. upb_put_bytes env e data = Inr e' \<and> wf_state e' \<and> buf e' = buf e
              \<and> limit e' = limit e \<and> ptr e' = ptr e - length data
              \<and> written e' = data @ written e"
proof -
  from put_bytes_frame [OF assms, of env] obtain e' where
    e': "upb_put_bytes env e data = Inr e'" "buf e' = buf e" "limit e' = limit e"
        "ptr e' = ptr e - length data" "written e' = data @ written e" by blast
  from put_bytes_Inr(1) [OF e'(1) assms(1)] e' show ?thesis by blast
qed

lemma put_varint_frame_wf:
  assumes "wf_state e" and "10 \<le> ptr e - buf e"
  shows "\<exists>e'. upb_put_varint env e val = Inr e' \<and> wf_state e' \<and> buf e' = buf e
              \<and> limit e' = limit e \<and> ptr e' = ptr e - length (upb_encode_varint val)
              \<and> written e' = upb_encode_varint val @ written e"
proof -
  from put_varint_frame [OF assms, of env val] obtain e' where
    e': "upb_put_varint env e val = Inr e'" "buf e' = buf e" "limit e' = limit e"
        "ptr e' = ptr e - length (upb_encode_varint val)"
        "written e' = upb_encode_varint val @ written e" by blast
  from put_varint_Inr(1) [OF e'(1) assms(1)] e' show ?thesis by blast
qed


text \<open>Claim C10. In a state that satisfies the invariant, a write primitive whose
  reservation fits below the cursor (so the buffer does not grow) succeeds, keeps \<open>buf\<close>
  and \<open>limit\<close>, leaves the bytes of \<open>[ptr, limit)\<close> as they were and moves the cursor
  down by exactly the bytes it appended: \<open>upb_encode_reserve\<close> by \<open>n\<close>, \<open>upb_put_bytes\<close>
  by the data (which then stand before the old output), \<open>upb_put_fixed32\<close> and
  \<open>upb_put_fixed64\<close> by 4 and 8 bytes, \<open>upb_put_varint\<close> and \<open>upb_put_tag\<close> by the width
  of the varint, although they reserve \<open>UPB_PB_VARINT_MAX_LEN\<close> bytes.\<close>

theorem write_primitives_frame:
  "wf_state e \<Longrightarrow>
     (n \<le> ptr e - buf e \<longrightarrow>
        (\<exists>e'. upb_encode_reserve env e n = Inr e' \<and> wf_state e' \<and> buf e' = buf e
              \<and> limit e' = limit e \<and> ptr e' = ptr e - n
              \<and> bytes_between (heap e') (ptr e) (limit e) = written e))
   \<and> (length data \<le> ptr e - buf e \<longrightarrow>
        (\<exists>e'. upb_put_bytes env e data = Inr e' \<and> wf_state e' \<and> buf e' = buf e
              \<and> limit e' = limit e \<and> ptr e' = ptr e - length data
              \<and> written e' = data @ written e))
   \<and> (UPB_PB_VARINT_MAX_LEN \<le> ptr e - buf e \<longrightarrow>
        (\<exists>e'. upb_put_varint env e val = Inr e' \<and> wf_state e' \<and> buf e' = buf e
              \<and> limit e' = limit e \<and> ptr e' = ptr e - length (upb_encode_varint val)
              \<and> written e' = upb_encode_varint val @ written e))
   \<and> (4 \<le> ptr e - buf e \<longrightarrow>
        (\<exists>e'. upb_put_fixed32 env e v32 = Inr e' \<and> wf_state e' \<and> buf e' = buf e
              \<and> limit e' = limit e \<and> ptr e' = ptr e - 4
              \<and> written e' = le_bytes 4 v32 @ written e))
   \<and> (8 \<le> ptr e - buf e \<longrightarrow>
        (\<exists>e'. upb_put_fixed64 env e v64 = Inr e' \<and> wf_state e' \<and> buf e' = buf e
              \<and> limit e' = limit e \<and> ptr e' = ptr e - 8
              \<and> written e' = le_bytes 8 v64 @ written e))
   \<and> (UPB_PB_VARINT_MAX_LEN \<le> ptr e - buf e \<longrightarrow>
        (\<exists>e'. upb_put_tag env e field_number wire_type = Inr e' \<and> wf_state e' \<and> buf e' = buf e
              \<and> limit e' = limit e
              \<and> ptr e' = ptr e - length (upb_encode_varint (scast (push_bit 3 field_number OR wire_type)))
              \<and> written e' = upb_encode_varint (scast (push_bit 3 field_number OR wire_type)) @ written e))"
proof -
  assume wf: "wf_state e"
  have a: "n \<le> ptr e - buf e \<longrightarrow>
        (\<exists>e'. upb_encode_reserve env e n = Inr e' \<and> wf_state e' \<and> buf e' = buf e
              \<and> limit e' = limit e \<and> ptr e' = ptr e - n
              \<and> bytes_between (heap e') (ptr e) (limit e) = written e)"
    using reserve_frame [OF wf] by blast
  have b: "length data \<le> ptr e - buf e \<longrightarrow>
        (\<exists>e'. upb_put_bytes env e data = Inr e' \<and> wf_state e' \<and> buf e' = buf e
              \<and> limit e' = limit e \<and> ptr e' = ptr e - length data
              \<and> written e' = data @ written e)"
    using put_bytes_frame_wf [OF wf] by blast
  have c: "UPB_PB_VARINT_MAX_LEN \<le> ptr e - buf e \<longrightarrow>
        (\<exists>e'. upb_put_varint env e val = Inr e' \<and> wf_state e' \<and> buf e' = buf e
              \<and> limit e' = limit e \<and> ptr e' = ptr e - length (upb_encode_varint val)
              \<and> written e' = upb_encode_varint val @ written e)" for val
    using put_varint_frame_wf [OF wf] by (simp add: UPB_PB_VARINT_MAX_LEN_def)
  have d: "4 \<le> ptr e - buf e \<longrightarrow>
        (\<exists>e'. upb_put_fixed32 env e v32 = Inr e' \<and> wf_state e' \<and> buf e' = buf e
              \<and> limit e' = limit e \<and> ptr e' = ptr e - 4
              \<and> written e' = le_bytes 4 v32 @ written e)"
    using put_bytes_frame_wf [OF wf, of "le_bytes 4 v32" env] by (simp add: upb_put_fixed32_def)
  have f: "8 \<le> ptr e - buf e \<longrightarrow>
        (\<exists>e'. upb_put_fixed64 env e v64 = Inr e' \<and> wf_state e' \<and> buf e' = buf e
              \<and> limit e' = limit e \<and> ptr e' = ptr e - 8
              \<and> written e' = le_bytes 8 v64 @ written e)"
    using put_bytes_frame_wf [OF wf, of "le_bytes 8 v64" env] by (simp add: upb_put_fixed64_def)
  show ?thesis
    unfolding upb_put_tag_def
    by (intro conjI a b c d f)
qed

theorem write_primitives_frame_witness:
  "wf_state \<lparr>heap = (\<lambda>a. if a = 1127 then 7 else 0), buf = 1000, ptr = 1127, limit = 1128\<rparr>
   \<and> written \<lparr>heap = (\<lambda>a. if a = 1127 then 7 else 0), buf = 1000, ptr = 1127, limit = 1128\<rparr> = [7]
   \<and> (\<exists>e'. upb_put_varint (\<lambda>p old new. 0)
              \<lparr>heap = (\<lambda>a. if a = 1127 then 7 else 0), buf = 1000, ptr = 1127, limit = 1128\<rparr> 300 = Inr e'
            \<and> ptr e' = 1125 \<and> limit e' = 1128 \<and> written e' = [0xAC, 0x02, 7])"
proof -
  let ?e = "\<lparr>heap = (\<lambda>a. if a = 1127 then 7 else 0), buf = 1000, ptr = 1127, limit = 1128\<rparr>"
  have wf: "wf_state ?e" by (simp add: wf_state_def)
  have w: "written ?e = [7]" by (simp add: written_def bytes_between_def)
  have v: "upb_encode_varint 300 = [0xAC, 0x02]"
    by (simp add: upb_encode_varint_def varint_loop_unfold varint_loop_0)
  have room: "UPB_PB_VARINT_MAX_LEN \<le> ptr ?e - buf ?e" by (simp add: UPB_PB_VARINT_MAX_LEN_def)
  from write_primitives_frame [OF wf, of _ "(\<lambda>p old new. 0)" _ 300] room
  have "\<exists>e'. upb_put_varint (\<lambda>p old new. 0) ?e 300 = Inr e' \<and> wf_state e' \<and> buf e' = buf ?e
              \<and> limit e' = limit ?e \<and> ptr e' = ptr ?e - length (upb_encode_varint 300)
              \<and> written e' = upb_encode_varint 300 @ written ?e" by blast
  then show ?thesis using wf w v by auto
qed

subsection \<open>Growth\<close>

lemma roundup_120: "upb_roundup_pow2 120 = 128"
  by (simp add: upb_roundup_pow2_def upb_roundup_pow2_loop.simps)

lemma roundup_130: "upb_roundup_pow2 130 = 256"
  by (simp add: upb_roundup_pow2_def upb_roundup_pow2_loop.simps)

lemma bytes_between_replicate:
  "(\<And>a. p \<le> a \<Longrightarrow> a < q \<Longrightarrow> h a = x) \<Longrightarrow> bytes_between h p q = replicate (q - p) x"
  by (rule nth_equalityI) (simp_all add: bytes_between_def)

text \<open>Claim C1 (growth preserves the written bytes), evaluated on the code. The allocator
  places a new block right after the old one and the heap is zero where nothing was
  written. \<open>upb_put_bytes\<close> of 120 bytes \<open>0x78\<close> into the empty state leaves them in
  \<open>[ptr, limit)\<close> of a 128-byte buffer with 8 bytes free, so the reservation of
  \<open>UPB_PB_VARINT_MAX_LEN\<close> bytes that follows calls \<open>upb_encode_growbuffer\<close>. After it
  the used region still has 120 bytes, but they are the zeros of the heap, not the bytes
  written: the \<open>memmove\<close> moved the old block onto itself and nothing into the new one.\<close>

theorem growbuffer_drops_written_bytes:
  "\<exists>e1 e2.
     upb_put_bytes (\<lambda>p old new. if p = 0 then 4096 else p + old)
       \<lparr>heap = (\<lambda>a. 0), buf = 0, ptr = 0, limit = 0\<rparr> (replicate 120 0x78) = Inr e1
   \<and> buf e1 \<le> ptr e1 \<and> ptr e1 \<le> limit e1 \<and> used e1 = 120 \<and> written e1 = replicate 120 0x78
   \<and> ptr e1 - buf e1 < UPB_PB_VARINT_MAX_LEN
   \<and> upb_encode_growbuffer (\<lambda>p old new. if p = 0 then 4096 else p + old) e1 UPB_PB_VARINT_MAX_LEN = Inr e2
   \<and> used e2 = 120 \<and> written e2 = replicate 120 0x00"
proof -
  let ?env = "\<lambda>p old new :: nat. if p = 0 then 4096 else p + old"
  let ?e0 = "\<lparr>heap = (\<lambda>a. 0), buf = 0, ptr = 0, limit = 0\<rparr>"
  define data :: "byte list" where "data = replicate 120 0x78"
  have ld: "length data = 120" by (simp add: data_def)
  define e1 where "e1 = \<lparr>heap = memcpy (\<lambda>a. 0) 4104 data, buf = 4096, ptr = 4104, limit = 4224\<rparr>"
  have f1: "buf e1 = 4096" "ptr e1 = 4104" "limit e1 = 4224"
    and h1: "heap e1 = memcpy (\<lambda>a. 0) 4104 data"
    by (simp_all add: e1_def)
  have e1: "upb_put_bytes ?env ?e0 data = Inr e1"
    by (simp add: upb_put_bytes_def upb_encode_reserve_def growbuffer_cases upb_env_realloc_def
        roundup_120 ld memmove_def e1_def)
  have w1: "written e1 = data"
    unfolding written_def f1 h1 using bytes_between_memcpy [of "\<lambda>a. 0" 4104 data] by (simp add: ld)
  obtain e2 where e2: "upb_encode_growbuffer ?env e1 UPB_PB_VARINT_MAX_LEN = Inr e2"
    by (simp add: growbuffer_cases f1)
  then have f2: "buf e2 = 4224" "ptr e2 = 4360" "limit e2 = 4480"
    and h2: "\<And>a. 4360 \<le> a \<Longrightarrow> heap e2 a = 0"
    by (auto simp: growbuffer_cases upb_env_realloc_def f1 h1 UPB_PB_VARINT_MAX_LEN_def roundup_130
        memmove_def memcpy_def ld)
  have w2: "written e2 = replicate 120 0"
    unfolding written_def f2 using bytes_between_replicate [of 4360 4480 "heap e2" 0] h2 by simp
  show ?thesis
    using e1 e2 w1 w2 f1 f2
    by (auto simp: data_def wf_state_def used_def UPB_PB_VARINT_MAX_LEN_def)
qed

section \<open>The message encoder\<close>

subsection \<open>Invariant, progress and failure\<close>

lemma ok_res_Inr [simp]: "ok_res env u (Inr e') \<longleftrightarrow> wf_state e' \<and> u \<le> used e'"
  by (simp add: ok_res_def)

lemma ok_res_Undefined [simp]: "ok_res env u (Inl Undefined)"
  by (simp add: ok_res_def)

lemma ok_res_InrD: "ok_res env u r \<Longrightarrow> r = Inr e' \<Longrightarrow> wf_state e' \<and> u \<le> used e'"
  by simp

lemma ok_res_weaken: "ok_res env u r \<Longrightarrow> u' \<le> u \<Longrightarrow> ok_res env u' r"
  by (auto simp: ok_res_def split: sum.splits error.splits)

lemma ok_res_case:
  assumes "ok_res env u r"
    and step: "\<And>e1. wf_state e1 \<Longrightarrow> u \<le> used e1 \<Longrightarrow> ok_res env u' (k e1)"
  shows "ok_res env u' (case r of Inl err \<Rightarrow> Inl err | Inr e1 \<Rightarrow> k e1)"
proof (cases r)
  case (Inl err)
  then show ?thesis using assms(1) by (cases err) (auto simp: ok_res_def)
next
  case (Inr e1)
  then have "wf_state e1" "u \<le> used e1" using assms(1) by simp_all
  from step [OF this] show ?thesis using Inr by simp
qed

lemma ok_res_case_eq:
  assumes "ok_res env u r"
    and step: "\<And>e1. r = Inr e1 \<Longrightarrow> wf_state e1 \<Longrightarrow> u \<le> used e1 \<Longrightarrow> ok_res env u' (k e1)"
  shows "ok_res env u' (case r of Inl err \<Rightarrow> Inl err | Inr e1 \<Rightarrow> k e1)"
proof (cases r)
  case (Inl err)
  then show ?thesis using assms(1) by (cases err) (auto simp: ok_res_def)
next
  case (Inr e1)
  then have "wf_state e1" "u \<le> used e1" using assms(1) by simp_all
  from step [OF Inr this] show ?thesis using Inr by simp
qed

lemma ok_res_Inl: "ok_res env u (Inl err) \<Longrightarrow> ok_res env u' (Inl err)"
  by (cases err) (simp_all add: ok_res_def)

lemma ok_res_case_msg:
  assumes "ok_res env u (case r of Inl err \<Rightarrow> Inl err | Inr (e', sz) \<Rightarrow> Inr e')"
    and step: "\<And>e1 sz. r = Inr (e1, sz) \<Longrightarrow> wf_state e1 \<Longrightarrow> u \<le> used e1 \<Longrightarrow> ok_res env u' (k e1 sz)"
  shows "ok_res env u' (case r of Inl err \<Rightarrow> Inl err | Inr (e1, sz) \<Rightarrow> k e1 sz)"
proof (cases r)
  case (Inl err)
  with assms(1) have "ok_res env u (Inl err)" by simp
  then have "ok_res env u' (Inl err)" by (rule ok_res_Inl)
  then show ?thesis using Inl by simp
next
  case (Inr pr)
  obtain e1 sz where pr: "pr = (e1, sz)" by (cases pr)
  from assms(1) Inr pr have "wf_state e1" "u \<le> used e1" by simp_all
  from step [OF Inr [unfolded pr] this] show ?thesis using Inr pr by simp
qed

lemma ok_res_and_then:
  "ok_res env u r \<Longrightarrow> (\<And>e1. wf_state e1 \<Longrightarrow> u \<le> used e1 \<Longrightarrow> ok_res env u' (k e1)) \<Longrightarrow>
   ok_res env u' (and_then r k)"
  unfolding and_then_def by (rule ok_res_case)

text \<open>A failure is the failure of a growth request: the allocator was asked for a
  block larger than the one it is given, and returned \<open>NULL\<close>.\<close>

lemma growbuffer_fail:
  "upb_encode_growbuffer env e bytes = Inl err \<Longrightarrow>
   err = AllocationFailure (buf e) (limit e - buf e) (upb_roundup_pow2 (bytes + (limit e - ptr e)))
   \<and> env (buf e) (limit e - buf e) (upb_roundup_pow2 (bytes + (limit e - ptr e))) = 0"
  by (auto simp: growbuffer_cases split: if_splits)

lemma reserve_fail:
  assumes "wf_state e" and "upb_encode_reserve env e bytes = Inl err"
  shows "\<exists>p old new. err = AllocationFailure p old new \<and> env p old new = 0 \<and> old < new"
proof -
  from assms(2) have small: "\<not> bytes \<le> ptr e - buf e"
    and g: "upb_encode_growbuffer env e bytes = Inl err"
    by (auto simp: upb_encode_reserve_def split: if_splits sum.splits)
  from small assms(1) have "limit e - buf e < bytes + (limit e - ptr e)"
    by (auto simp: wf_state_def)
  also have "\<dots> \<le> upb_roundup_pow2 (bytes + (limit e - ptr e))" by (rule roundup_pow2_ge)
  finally show ?thesis using growbuffer_fail [OF g] by blast
qed

lemma ok_put_bytes: "wf_state e \<Longrightarrow> ok_res env (used e + length data) (upb_put_bytes env e data)"
proof (cases "upb_put_bytes env e data")
  case (Inl err)
  assume "wf_state e"
  moreover from Inl have "upb_encode_reserve env e (length data) = Inl err"
    by (auto simp: upb_put_bytes_def split: sum.splits)
  ultimately have "\<exists>p old new. err = AllocationFailure p old new \<and> env p old new = 0 \<and> old < new"
    by (rule reserve_fail)
  with Inl show ?thesis by (auto simp: ok_res_def)
next
  case (Inr e')
  assume "wf_state e"
  from put_bytes_Inr [OF Inr this] Inr show ?thesis by simp
qed

lemma ok_put_varint: "wf_state e \<Longrightarrow> ok_res env (used e + length (upb_encode_varint val)) (upb_put_varint env e val)"
proof (cases "upb_put_varint env e val")
  case (Inl err)
  assume "wf_state e"
  moreover from Inl have "upb_encode_reserve env e 10 = Inl err"
    by (auto simp: upb_put_varint_def UPB_PB_VARINT_MAX_LEN_def Let_def split: sum.splits)
  ultimately have "\<exists>p old new. err = AllocationFailure p old new \<and> env p old new = 0 \<and> old < new"
    by (rule reserve_fail)
  with Inl show ?thesis by (auto simp: ok_res_def)
next
  case (Inr e')
  assume "wf_state e"
  from put_varint_Inr [OF Inr this] Inr show ?thesis by simp
qed

lemma ok_put_varint1: "wf_state e \<Longrightarrow> ok_res env (Suc (used e)) (upb_put_varint env e val)"
  using ok_put_varint [of e env val] upb_encode_varint_length [of val]
  by (auto intro: ok_res_weaken)

lemma ok_put_tag1: "wf_state e \<Longrightarrow> ok_res env (Suc (used e)) (upb_put_tag env e fn wt)"
  unfolding upb_put_tag_def by (rule ok_put_varint1)

lemma ok_varint_from: "wf_state e1 \<Longrightarrow> u \<le> used e1 \<Longrightarrow> ok_res env (Suc u) (upb_put_varint env e1 v)"
  by (rule ok_res_weaken [OF ok_put_varint1]) simp_all

lemma ok_tag_from: "wf_state e1 \<Longrightarrow> u \<le> used e1 \<Longrightarrow> ok_res env (Suc u) (upb_put_tag env e1 fn wt)"
  by (rule ok_res_weaken [OF ok_put_tag1]) simp_all

lemma ok_put_fixed64: "wf_state e \<Longrightarrow> ok_res env (used e + 8) (upb_put_fixed64 env e v)"
  using ok_put_bytes [of e env "le_bytes 8 v"] by (simp add: upb_put_fixed64_def)

lemma ok_put_fixed32: "wf_state e \<Longrightarrow> ok_res env (used e + 4) (upb_put_fixed32 env e v)"
  using ok_put_bytes [of e env "le_bytes 4 v"] by (simp add: upb_put_fixed32_def)

text \<open>A value is written and then its tag: at least two bytes more.\<close>

lemma ok_then_tag:
  assumes "wf_state e" and "\<And>e. wf_state e \<Longrightarrow> ok_res env (used e) (put e)"
  shows "ok_res env (Suc (used e)) (and_then (put e) (\<lambda>e'. upb_put_tag env e' fn wt))"
proof (rule ok_res_and_then [OF assms(2) [OF assms(1)]])
  fix e1 assume "wf_state e1" "used e \<le> used e1"
  then show "ok_res env (Suc (used e)) (upb_put_tag env e1 fn wt)"
    using ok_put_tag1 [of e1 env fn wt] by (auto intro: ok_res_weaken)
qed

lemma ok_CASE_emit:
  assumes "wf_state e" and "\<And>e. wf_state e \<Longrightarrow> ok_res env (used e) (put e)"
    and "\<not> (skip \<and> z)"
  shows "ok_res env (Suc (used e)) (CASE env e f skip z put wt)"
  using assms(3) ok_then_tag [OF assms(1,2)] by (simp add: CASE_def)

lemma ok_CASE:
  assumes "wf_state e" and "\<And>e. wf_state e \<Longrightarrow> ok_res env (used e) (put e)"
  shows "ok_res env (used e) (CASE env e f skip z put wt)"
  using ok_then_tag [OF assms(1,2), of fn wt] assms(1)
  by (auto simp: CASE_def intro: ok_res_weaken ok_then_tag [OF assms(1,2)])


text \<open>The reads of the record do not allocate.\<close>

lemma ok_res_read:
  assumes "\<forall>p old new. rd \<noteq> Inl (AllocationFailure p old new)"
    and "\<And>v. rd = Inr v \<Longrightarrow> ok_res env u (k v)"
  shows "ok_res env u (and_then rd k)"
proof (cases rd)
  case (Inl err)
  with assms(1) have "err = Undefined" by (cases err) auto
  with Inl show ?thesis by (simp add: and_then_def)
next
  case (Inr v)
  with assms(2) show ?thesis by (simp add: and_then_def)
qed

lemma read_bits64_pure [simp]: "read_bits64 s \<noteq> Inl (AllocationFailure p old new)"
  by (simp add: read_bits64_def split: slot.splits)

lemma read_bits32_pure [simp]: "read_bits32 s \<noteq> Inl (AllocationFailure p old new)"
  by (simp add: read_bits32_def split: slot.splits)

lemma read_bool_pure [simp]: "read_bool s \<noteq> Inl (AllocationFailure p old new)"
  by (simp add: read_bool_def split: slot.splits)

lemma read_stringview_pure [simp]: "read_stringview s \<noteq> Inl (AllocationFailure p old new)"
  by (simp add: read_stringview_def split: slot.splits)

lemma elem_bytes_pure [simp]: "elem_bytes sz s \<noteq> Inl (AllocationFailure p old new)"
  by (simp add: elem_bytes_def split: slot.splits)

lemma read_elems_pure:
  "(\<And>s. rd s \<noteq> Inl (AllocationFailure p old new)) \<Longrightarrow>
   read_elems rd xs \<noteq> Inl (AllocationFailure p old new)"
proof (induction xs)
  case Nil then show ?case by simp
next
  case (Cons x xs)
  then show ?case
    by (cases "rd x"; cases "read_elems rd xs") (auto simp: and_then_def)
qed

lemma ok_put_varints:
  "wf_state e \<Longrightarrow> ok_res env (used e) (put_varints env e vs)"
proof (induction vs arbitrary: e)
  case Nil then show ?case by simp
next
  case (Cons v vs)
  show ?case
    unfolding put_varints.simps
  proof (rule ok_res_case [OF ok_put_varint1 [OF Cons.prems]])
    fix e1 assume "wf_state e1" "Suc (used e) \<le> used e1"
    then show "ok_res env (used e) (put_varints env e1 vs)"
      using Cons.IH [of e1] by (auto intro: ok_res_weaken)
  qed
qed

lemma ok_VARINT_CASE:
  "wf_state e \<Longrightarrow> ok_res env (Suc (used e)) (VARINT_CASE env e vs)"
  unfolding VARINT_CASE_def Let_def
proof (rule ok_res_and_then [OF ok_put_varints])
  fix e1 assume "wf_state e1" "used e \<le> used e1"
  then show "ok_res env (Suc (used e)) (upb_put_varint env e1 (word_of_nat (limit e1 - ptr e1 - (limit e - ptr e))))"
    using ok_put_varint1 [of e1 env] by (auto intro: ok_res_weaken)
qed

lemma ok_packed_tag:
  "ok_res env u r \<Longrightarrow> ok_res env (Suc u) (packed_tag env f r)"
  unfolding packed_tag_def
proof (erule ok_res_and_then)
  fix e1 assume "wf_state e1" "u \<le> used e1"
  then show "ok_res env (Suc u) (upb_put_tag env e1 (number f) UPB_WIRE_TYPE_DELIMITED)"
    using ok_put_tag1 [of e1 env] by (auto intro: ok_res_weaken)
qed

lemma ok_string:
  assumes "wf_state e"
  shows "ok_res env (Suc (used e))
     (and_then (upb_put_bytes env e v) (\<lambda>e1.
      and_then (upb_put_varint env e1 (word_of_nat (length v))) (\<lambda>e2.
      upb_put_tag env e2 fn wt)))"
proof (rule ok_res_and_then [OF ok_put_bytes [OF assms]])
  fix e1 assume e1: "wf_state e1" "used e + length v \<le> used e1"
  show "ok_res env (Suc (used e)) (and_then (upb_put_varint env e1 (word_of_nat (length v))) (\<lambda>e2. upb_put_tag env e2 fn wt))"
  proof (rule ok_res_and_then [OF ok_put_varint1 [OF e1(1)]])
    fix e2 assume "wf_state e2" "Suc (used e1) \<le> used e2"
    then show "ok_res env (Suc (used e)) (upb_put_tag env e2 fn wt)"
      using e1(2) by (intro ok_tag_from) simp_all
  qed
qed

lemma ok_put_strings:
  "wf_state e \<Longrightarrow> ok_res env (used e) (put_strings env e f vs)"
proof (induction vs arbitrary: e)
  case Nil then show ?case by simp
next
  case (Cons v vs)
  show ?case
    unfolding put_strings.simps
  proof (rule ok_res_case [OF ok_string [OF Cons.prems]])
    fix e1 assume "wf_state e1" "Suc (used e) \<le> used e1"
    then show "ok_res env (used e) (put_strings env e1 f vs)"
      using Cons.IH [of e1] by (auto intro: ok_res_weaken)
  qed
qed

lemma ok_put_fixedarray:
  "wf_state e \<Longrightarrow> ok_res env (Suc (used e)) (upb_put_fixedarray env e arr sz)"
  unfolding upb_put_fixedarray_def Let_def
proof (rule ok_res_read)
  show "\<forall>p old new. read_elems (elem_bytes sz) (arr_data arr) \<noteq> Inl (AllocationFailure p old new)"
    by (intro allI read_elems_pure) simp
next
  fix data assume "wf_state e"
  show "ok_res env (Suc (used e)) (and_then (upb_put_bytes env e (concat data))
          (\<lambda>e'. upb_put_varint env e' (word_of_nat (length (arr_data arr) * sz))))"
  proof (rule ok_res_and_then [OF ok_put_bytes [OF \<open>wf_state e\<close>]])
    fix e1 assume "wf_state e1" "used e + length (concat data) \<le> used e1"
    then show "ok_res env (Suc (used e)) (upb_put_varint env e1 (word_of_nat (length (arr_data arr) * sz)))"
      by (intro ok_varint_from) simp_all
  qed
qed


lemma ok_encode:
  "wf_state e \<Longrightarrow> ok_res env (used e) (case upb_encode_message env e mo m of Inl err \<Rightarrow> Inl err | Inr (e', sz) \<Rightarrow> Inr e')"
  "wf_state e \<Longrightarrow> ok_res env (used e) (upb_encode_message_fields env e msg m fs)"
  "wf_state e \<Longrightarrow> ok_res env (used e) (upb_encode_scalarfield env e fm m f p3)"
  "wf_state e \<Longrightarrow> ok_res env (used e) (upb_encode_array env e fm m f)"
  "wf_state e \<Longrightarrow> ok_res env (used e) (put_groups env e subm f xs)"
  "wf_state e \<Longrightarrow> ok_res env (used e) (put_messages env e subm f xs)"
proof (induction env e mo m and env e msg m fs and env e fm m f p3 and env e fm m f
         and env e subm f xs and env e subm f xs
       rule: upb_encode_message_upb_encode_message_fields_upb_encode_scalarfield_upb_encode_array_put_groups_put_messages.induct)
  case (1 env e m)
  then show ?case by simp
next
  case (2 env e msg m)
  then show ?case
    by (cases "upb_encode_message_fields env e msg m (rev (fields m))")
       (auto simp: ok_res_def split: error.splits)
next
  case (3 env e msg m)
  then show ?case by simp
next
  case (4 env e msg m f fs)
  let ?step = "if label f = UPB_LABEL_REPEATED
            then upb_encode_array env e (field_mem msg (offset f)) m f
            else case upb_encode_hasscalarfield msg m f of
                   Inl err \<Rightarrow> Inl err
                 | Inr has \<Rightarrow>
                     if has
                     then upb_encode_scalarfield env e (field_mem msg (offset f)) m f (\<not> is_proto2 m)
                     else Inr e"
  have hs: "upb_encode_hasscalarfield msg m f \<noteq> Inl (AllocationFailure p old new)" for p old new
    by (auto simp: upb_encode_hasscalarfield_def upb_readcase_def upb_readhasbit_def
             split: option.splits sum.splits if_splits)
  have step: "ok_res env (used e) ?step"
  proof (cases "label f = UPB_LABEL_REPEATED")
    case True
    with "4.IH"(1) "4.prems" show ?thesis by simp
  next
    case False
    show ?thesis
    proof (cases "upb_encode_hasscalarfield msg m f")
      case (Inl err)
      with hs have "err = Undefined" by (cases err) auto
      with Inl False show ?thesis by simp
    next
      case (Inr has)
      with "4.IH"(2) [OF False Inr] "4.prems" False show ?thesis by (cases has) auto
    qed
  qed
  show ?case
    unfolding upb_encode_message_fields.simps
  proof (rule ok_res_case_eq [OF step])
    fix e1 assume e1: "?step = Inr e1" "wf_state e1" "used e \<le> used e1"
    from "4.IH"(3) [OF e1(1) e1(2)] e1(3)
    show "ok_res env (used e) (upb_encode_message_fields env e1 msg m fs)"
      by (rule ok_res_weaken)
  qed
next
  case (5 env e fm m f is_proto3)
  note wf = "5.prems"
  define skip where "skip = (is_proto3 \<and> oneof_index f = None)"
  have pv: "\<And>e v. wf_state e \<Longrightarrow> ok_res env (used e) (upb_put_varint env e v)"
    by (rule ok_res_weaken [OF ok_put_varint1]) simp_all
  have p64: "\<And>e v. wf_state e \<Longrightarrow> ok_res env (used e) (upb_put_fixed64 env e v)"
    by (rule ok_res_weaken [OF ok_put_fixed64]) simp_all
  have p32: "\<And>e v. wf_state e \<Longrightarrow> ok_res env (used e) (upb_put_fixed32 env e v)"
    by (rule ok_res_weaken [OF ok_put_fixed32]) simp_all
  have pd: "\<And>e v. wf_state e \<Longrightarrow> ok_res env (used e) (upb_put_double env e v)"
    unfolding upb_put_double_def by (rule p64)
  have pf: "\<And>e v. wf_state e \<Longrightarrow> ok_res env (used e) (upb_put_float env e v)"
    unfolding upb_put_float_def by (rule p32)
  have str: "\<And>view. ok_res env (used e)
       (if skip \<and> view = [] then Inr e
        else and_then (upb_put_bytes env e view) (\<lambda>e1.
             and_then (upb_put_varint env e1 (word_of_nat (length view))) (\<lambda>e2.
             upb_put_tag env e2 (number f) UPB_WIRE_TYPE_DELIMITED)))"
    using wf ok_res_weaken [OF ok_string [OF wf]] by auto
  show ?case
  proof (cases "type f")
    case UPB_DESCRIPTOR_TYPE_GROUP
    show ?thesis
    proof (cases fm)
      case (SubMsg submsg)
      show ?thesis
      proof (cases "submsg_index f < length (submsgs m) \<and> \<not> (skip \<and> submsg = None)")
        case True
        then have idx: "submsg_index f < length (submsgs m)" and ns: "\<not> (skip \<and> submsg = None)"
          by simp_all
        have "ok_res env (used e)
          (case upb_put_tag env e (number f) UPB_WIRE_TYPE_END_GROUP of
             Inl err \<Rightarrow> Inl err
           | Inr e1 \<Rightarrow>
               (case upb_encode_message env e1 submsg (submsgs m ! submsg_index f) of
                  Inl err \<Rightarrow> Inl err
                | Inr (e2, sz) \<Rightarrow> upb_put_tag env e2 (number f) UPB_WIRE_TYPE_START_GROUP))"
        proof (rule ok_res_case_eq [OF ok_put_tag1 [OF wf]])
          fix e1 assume e1: "upb_put_tag env e (number f) UPB_WIRE_TYPE_END_GROUP = Inr e1"
            "wf_state e1" "Suc (used e) \<le> used e1"
          show "ok_res env (used e)
               (case upb_encode_message env e1 submsg (submsgs m ! submsg_index f) of
                  Inl err \<Rightarrow> Inl err
                | Inr (e2, sz) \<Rightarrow> upb_put_tag env e2 (number f) UPB_WIRE_TYPE_START_GROUP)"
          proof (rule ok_res_case_msg [OF "5.IH"(1) [OF skip_def UPB_DESCRIPTOR_TYPE_GROUP SubMsg idx ns e1(1) e1(2)]])
            fix e2 sz assume "wf_state e2" "used e1 \<le> used e2"
            then show "ok_res env (used e) (upb_put_tag env e2 (number f) UPB_WIRE_TYPE_START_GROUP)"
              using e1(3) by (intro ok_res_weaken [OF ok_put_tag1]) simp_all
          qed
        qed
        then show ?thesis
          using True SubMsg UPB_DESCRIPTOR_TYPE_GROUP wf
          by (simp add: upb_encode_scalarfield.simps skip_def [symmetric])
      next
        case False
        then show ?thesis
          using SubMsg UPB_DESCRIPTOR_TYPE_GROUP wf
          by (auto simp: upb_encode_scalarfield.simps skip_def [symmetric])
      qed
    qed (simp_all add: upb_encode_scalarfield.simps UPB_DESCRIPTOR_TYPE_GROUP)
  next
    case UPB_DESCRIPTOR_TYPE_MESSAGE
    show ?thesis
    proof (cases fm)
      case (SubMsg submsg)
      show ?thesis
      proof (cases "submsg_index f < length (submsgs m) \<and> \<not> (skip \<and> submsg = None)")
        case True
        then have idx: "submsg_index f < length (submsgs m)" and ns: "\<not> (skip \<and> submsg = None)"
          by simp_all
        have "ok_res env (used e)
          (case upb_encode_message env e submsg (submsgs m ! submsg_index f) of
             Inl err \<Rightarrow> Inl err
           | Inr (e1, sz) \<Rightarrow> (case sz of None \<Rightarrow> Inl Undefined
              | Some n \<Rightarrow> and_then (upb_put_varint env e1 (word_of_nat n)) (\<lambda>e2.
                             upb_put_tag env e2 (number f) UPB_WIRE_TYPE_DELIMITED)))"
        proof (rule ok_res_case_msg [OF "5.IH"(2) [OF skip_def UPB_DESCRIPTOR_TYPE_MESSAGE SubMsg idx ns wf]])
          fix e1 sz assume e1: "wf_state e1" "used e \<le> used e1"
          show "ok_res env (used e) (case sz of None \<Rightarrow> Inl Undefined
              | Some n \<Rightarrow> and_then (upb_put_varint env e1 (word_of_nat n)) (\<lambda>e2.
                             upb_put_tag env e2 (number f) UPB_WIRE_TYPE_DELIMITED))"
          proof (cases sz)
            case None then show ?thesis by simp
          next
            case (Some n)
            have "ok_res env (Suc (used e1)) (and_then (upb_put_varint env e1 (word_of_nat n)) (\<lambda>e2.
                             upb_put_tag env e2 (number f) UPB_WIRE_TYPE_DELIMITED))"
              by (rule ok_then_tag [OF e1(1)]) (rule pv)
            then show ?thesis using Some e1(2) by (auto intro: ok_res_weaken)
          qed
        qed
        then show ?thesis
          using True SubMsg UPB_DESCRIPTOR_TYPE_MESSAGE wf
          by (simp add: upb_encode_scalarfield.simps skip_def [symmetric]
                split: sum.splits prod.splits option.splits)
      next
        case False
        then show ?thesis
          using SubMsg UPB_DESCRIPTOR_TYPE_MESSAGE wf
          by (auto simp: upb_encode_scalarfield.simps skip_def [symmetric])
      qed
    qed (simp_all add: upb_encode_scalarfield.simps UPB_DESCRIPTOR_TYPE_MESSAGE)
  qed (simp_all add: upb_encode_scalarfield.simps skip_def [symmetric] Let_def
          ok_res_read ok_CASE wf pv p64 p32 pd pf str)
next
  case (6 env e fm m f)
  note wf = "6.prems"
  have fixed: "\<And>arr sz. ok_res env (used e) (packed_tag env f (upb_put_fixedarray env e arr sz))"
    by (rule ok_res_weaken [OF ok_packed_tag [OF ok_put_fixedarray [OF wf]]]) simp
  have vc: "\<And>vs. ok_res env (used e) (packed_tag env f (VARINT_CASE env e vs))"
    by (rule ok_res_weaken [OF ok_packed_tag [OF ok_VARINT_CASE [OF wf]]]) simp
  have rd: "\<And>rd k. (\<And>s p old new. rd s \<noteq> Inl (AllocationFailure p old new)) \<Longrightarrow>
      ok_res env (used e) (packed_tag env f (and_then (read_elems rd (arr_data arr)) (\<lambda>vs. VARINT_CASE env e (k vs))))" for arr
  proof -
    fix rd :: "slot \<Rightarrow> error + 'x" and k
    assume pure: "\<And>s p old new. rd s \<noteq> Inl (AllocationFailure p old new)"
    have np: "\<forall>p old new. read_elems rd (arr_data arr) \<noteq> Inl (AllocationFailure p old new)"
      by (intro allI read_elems_pure pure)
    have "ok_res env (Suc (used e)) (and_then (read_elems rd (arr_data arr)) (\<lambda>vs. VARINT_CASE env e (k vs)))"
      by (rule ok_res_read [OF np]) (rule ok_VARINT_CASE [OF wf])
    from ok_packed_tag [OF this]
    show "ok_res env (used e) (packed_tag env f (and_then (read_elems rd (arr_data arr)) (\<lambda>vs. VARINT_CASE env e (k vs))))"
      by (rule ok_res_weaken) simp
  qed
  have strs: "\<And>arr. ok_res env (used e) (and_then (read_elems read_stringview (arr_data arr)) (\<lambda>vs. put_strings env e f (rev vs)))"
  proof (rule ok_res_read)
    fix arr
    show "\<forall>p old new. read_elems read_stringview (arr_data arr) \<noteq> Inl (AllocationFailure p old new)"
      by (intro allI read_elems_pure) simp
  qed (simp add: ok_put_strings [OF wf])
  show ?case
  proof (cases fm)
    case (ArrayPtr ap)
    show ?thesis
    proof (cases ap)
      case None
      with ArrayPtr wf show ?thesis by (simp add: upb_encode_array.simps)
    next
      case (Some arr)
      show ?thesis
      proof (cases "length (arr_data arr) \<noteq> 0 \<and> \<not> arr_type arr \<noteq> upb_desctype_to_fieldtype2 (type f)")
        case False
        with ArrayPtr Some wf show ?thesis by (auto simp: upb_encode_array.simps)
      next
        case True
        then have ne: "length (arr_data arr) \<noteq> 0"
          and ty: "\<not> arr_type arr \<noteq> upb_desctype_to_fieldtype2 (type f)" by simp_all
        show ?thesis
        proof (cases "type f")
          case UPB_DESCRIPTOR_TYPE_GROUP
          show ?thesis
            using "6.IH"(1) [OF ArrayPtr Some ne ty UPB_DESCRIPTOR_TYPE_GROUP _ wf] ArrayPtr Some True
            by (simp add: upb_encode_array.simps UPB_DESCRIPTOR_TYPE_GROUP)
        next
          case UPB_DESCRIPTOR_TYPE_MESSAGE
          show ?thesis
            using "6.IH"(2) [OF ArrayPtr Some ne ty UPB_DESCRIPTOR_TYPE_MESSAGE _ wf] ArrayPtr Some True
            by (simp add: upb_encode_array.simps UPB_DESCRIPTOR_TYPE_MESSAGE)
        qed (use ArrayPtr Some True in \<open>simp_all add: upb_encode_array.simps fixed vc rd strs\<close>)
      qed
    qed
  qed (simp_all add: upb_encode_array.simps)
next
  case (7 env e subm f)
  then show ?case by simp
next
  case (8 env e subm f x xs)
  show ?case
  proof (cases x)
    case (SubMsg p)
    have "ok_res env (used e)
      (case upb_put_tag env e (number f) UPB_WIRE_TYPE_END_GROUP of
         Inl err \<Rightarrow> Inl err
       | Inr e1 \<Rightarrow>
           (case upb_encode_message env e1 p subm of
              Inl err \<Rightarrow> Inl err
            | Inr (e2, sz) \<Rightarrow>
                (case upb_put_tag env e2 (number f) UPB_WIRE_TYPE_START_GROUP of
                   Inl err \<Rightarrow> Inl err
                 | Inr e3 \<Rightarrow> put_groups env e3 subm f xs)))"
    proof (rule ok_res_case_eq [OF ok_put_tag1 [OF "8.prems"]])
      fix e1 assume e1: "upb_put_tag env e (number f) UPB_WIRE_TYPE_END_GROUP = Inr e1"
        "wf_state e1" "Suc (used e) \<le> used e1"
      show "ok_res env (used e)
        (case upb_encode_message env e1 p subm of
              Inl err \<Rightarrow> Inl err
            | Inr (e2, sz) \<Rightarrow>
                (case upb_put_tag env e2 (number f) UPB_WIRE_TYPE_START_GROUP of
                   Inl err \<Rightarrow> Inl err
                 | Inr e3 \<Rightarrow> put_groups env e3 subm f xs))"
      proof (rule ok_res_case_msg [OF "8.IH"(1) [OF SubMsg e1(1) e1(2)]])
        fix e2 sz assume e2: "upb_encode_message env e1 p subm = Inr (e2, sz)"
          "wf_state e2" "used e1 \<le> used e2"
        show "ok_res env (used e)
           (case upb_put_tag env e2 (number f) UPB_WIRE_TYPE_START_GROUP of
                   Inl err \<Rightarrow> Inl err
                 | Inr e3 \<Rightarrow> put_groups env e3 subm f xs)"
        proof (rule ok_res_case_eq [OF ok_put_tag1 [OF e2(2)]])
          fix e3 assume e3: "upb_put_tag env e2 (number f) UPB_WIRE_TYPE_START_GROUP = Inr e3"
            "wf_state e3" "Suc (used e2) \<le> used e3"
          have "ok_res env (used e3) (put_groups env e3 subm f xs)"
            by (rule "8.IH"(2) [OF SubMsg e1(1) e2(1) refl e3(1) e3(2)])
          then show "ok_res env (used e) (put_groups env e3 subm f xs)"
            by (rule ok_res_weaken) (use e1(3) e2(3) e3(3) in simp)
        qed
      qed
    qed
    then show ?thesis using SubMsg by simp
  qed simp_all
next
  case (9 env e subm f)
  then show ?case by simp
next
  case (10 env e subm f x xs)
  show ?case
  proof (cases x)
    case (SubMsg p)
    have "ok_res env (used e)
          (case upb_encode_message env e p subm of
             Inl err \<Rightarrow> Inl err
           | Inr (e1, sz) \<Rightarrow> (case sz of None \<Rightarrow> Inl Undefined
             | Some sz \<Rightarrow>
               (case and_then (upb_put_varint env e1 (word_of_nat sz)) (\<lambda>e2.
                     upb_put_tag env e2 (number f) UPB_WIRE_TYPE_DELIMITED) of
                  Inl err \<Rightarrow> Inl err
                | Inr e3 \<Rightarrow> put_messages env e3 subm f xs)))"
    proof (rule ok_res_case_msg [OF "10.IH"(1) [OF SubMsg "10.prems"]])
      fix e1 sz assume e1: "upb_encode_message env e p subm = Inr (e1, sz)"
        "wf_state e1" "used e \<le> used e1"
      show "ok_res env (used e) (case sz of None \<Rightarrow> Inl Undefined
             | Some sz \<Rightarrow>
               (case and_then (upb_put_varint env e1 (word_of_nat sz)) (\<lambda>e2.
                     upb_put_tag env e2 (number f) UPB_WIRE_TYPE_DELIMITED) of
                  Inl err \<Rightarrow> Inl err
                | Inr e3 \<Rightarrow> put_messages env e3 subm f xs))"
      proof (cases sz)
        case None then show ?thesis by simp
      next
        case (Some n)
        have pre: "ok_res env (used e1) (and_then (upb_put_varint env e1 (word_of_nat n)) (\<lambda>e2.
                     upb_put_tag env e2 (number f) UPB_WIRE_TYPE_DELIMITED))"
          by (rule ok_res_weaken [OF ok_then_tag [OF e1(2)]]) (auto intro: ok_res_weaken [OF ok_put_varint1])
        have "ok_res env (used e)
               (case and_then (upb_put_varint env e1 (word_of_nat n)) (\<lambda>e2.
                     upb_put_tag env e2 (number f) UPB_WIRE_TYPE_DELIMITED) of
                  Inl err \<Rightarrow> Inl err
                | Inr e3 \<Rightarrow> put_messages env e3 subm f xs)"
        proof (rule ok_res_case_eq [OF pre])
          fix e3 assume e3: "and_then (upb_put_varint env e1 (word_of_nat n)) (\<lambda>e2.
                     upb_put_tag env e2 (number f) UPB_WIRE_TYPE_DELIMITED) = Inr e3"
            "wf_state e3" "used e1 \<le> used e3"
          have "ok_res env (used e3) (put_messages env e3 subm f xs)"
            by (rule "10.IH"(2) [OF SubMsg e1(1) refl Some e3(1) e3(2)])
          then show "ok_res env (used e) (put_messages env e3 subm f xs)"
            by (rule ok_res_weaken) (use e1(3) e3(3) in simp)
        qed
        then show ?thesis using Some by simp
      qed
    qed
    then show ?thesis using SubMsg by (simp split: prod.splits option.splits sum.splits)
  qed simp_all
qed


lemma wf_state_init: "wf_state \<lparr>heap = h, buf = 0, ptr = 0, limit = 0\<rparr>"
  by (simp add: wf_state_def)



subsection \<open>Records that fit their layout are encoded with defined behaviour\<close>

lemma nu_and_then:
  "r \<noteq> Inl Undefined \<Longrightarrow> (\<And>v. r = Inr v \<Longrightarrow> k v \<noteq> Inl Undefined) \<Longrightarrow>
   and_then r k \<noteq> Inl Undefined"
  by (cases r) (simp_all add: and_then_def)

lemma nu_case:
  "r \<noteq> Inl Undefined \<Longrightarrow> (\<And>v. r = Inr v \<Longrightarrow> k v \<noteq> Inl Undefined) \<Longrightarrow>
   (case r of Inl err \<Rightarrow> Inl err | Inr v \<Rightarrow> k v) \<noteq> Inl Undefined"
  by (cases r) simp_all

lemma put_tag_not_Undefined: "upb_put_tag env e fn wt \<noteq> Inl Undefined"
  unfolding upb_put_tag_def by (rule put_varint_not_Undefined)

lemma put_fixed64_not_Undefined: "upb_put_fixed64 env e v \<noteq> Inl Undefined"
  unfolding upb_put_fixed64_def by (rule put_bytes_not_Undefined)

lemma put_fixed32_not_Undefined: "upb_put_fixed32 env e v \<noteq> Inl Undefined"
  unfolding upb_put_fixed32_def by (rule put_bytes_not_Undefined)

lemma put_double_not_Undefined: "upb_put_double env e v \<noteq> Inl Undefined"
  unfolding upb_put_double_def by (rule put_fixed64_not_Undefined)

lemma put_float_not_Undefined: "upb_put_float env e v \<noteq> Inl Undefined"
  unfolding upb_put_float_def by (rule put_fixed32_not_Undefined)

lemmas put_not_Undefined = put_varint_not_Undefined put_bytes_not_Undefined put_tag_not_Undefined
  put_fixed64_not_Undefined put_fixed32_not_Undefined put_double_not_Undefined
  put_float_not_Undefined

lemma CASE_not_Undefined:
  "(\<And>e. put e \<noteq> Inl Undefined) \<Longrightarrow> CASE env e f skip z put wt \<noteq> Inl Undefined"
proof -
  assume p: "\<And>e. put e \<noteq> Inl Undefined"
  have "and_then (put e) (\<lambda>e'. upb_put_tag env e' (number f) wt) \<noteq> Inl Undefined"
    by (intro nu_and_then p put_tag_not_Undefined)
  then show ?thesis by (simp add: CASE_def)
qed

lemma string_not_Undefined:
  "and_then (upb_put_bytes env e v) (\<lambda>e1.
   and_then (upb_put_varint env e1 n) (\<lambda>e2. upb_put_tag env e2 fn wt)) \<noteq> Inl Undefined"
  by (intro nu_and_then put_not_Undefined)

lemma put_varints_not_Undefined: "put_varints env e vs \<noteq> Inl Undefined"
proof (induction vs arbitrary: e)
  case Nil then show ?case by simp
next
  case (Cons v vs)
  show ?case unfolding put_varints.simps
    by (rule nu_case [OF put_varint_not_Undefined]) (rule Cons.IH)
qed

lemma VARINT_CASE_not_Undefined: "VARINT_CASE env e vs \<noteq> Inl Undefined"
  unfolding VARINT_CASE_def Let_def
  by (intro nu_and_then put_varints_not_Undefined put_not_Undefined)

lemma put_strings_not_Undefined: "put_strings env e f vs \<noteq> Inl Undefined"
proof (induction vs arbitrary: e)
  case Nil then show ?case by simp
next
  case (Cons v vs)
  show ?case unfolding put_strings.simps
    by (rule nu_case [OF string_not_Undefined]) (rule Cons.IH)
qed

lemma read_elems_defined:
  "(\<And>x. x \<in> set xs \<Longrightarrow> rd x \<noteq> Inl Undefined) \<Longrightarrow> read_elems rd xs \<noteq> Inl Undefined"
proof (induction xs)
  case Nil then show ?case by simp
next
  case (Cons x xs)
  show ?case unfolding read_elems.simps
  proof (intro nu_and_then)
    show "rd x \<noteq> Inl Undefined" by (rule Cons.prems) simp
    show "read_elems rd xs \<noteq> Inl Undefined" by (rule Cons.IH) (simp add: Cons.prems)
  qed simp
qed

lemma packed_tag_not_Undefined: "r \<noteq> Inl Undefined \<Longrightarrow> packed_tag env f r \<noteq> Inl Undefined"
  unfolding packed_tag_def by (intro nu_and_then put_not_Undefined)

lemma fixedarray_not_Undefined:
  "(\<And>x. x \<in> set (arr_data arr) \<Longrightarrow> elem_bytes sz x \<noteq> Inl Undefined) \<Longrightarrow>
   upb_put_fixedarray env e arr sz \<noteq> Inl Undefined"
  unfolding upb_put_fixedarray_def Let_def
  by (intro nu_and_then read_elems_defined put_not_Undefined)

lemma varint_array_not_Undefined:
  "(\<And>x. x \<in> set xs \<Longrightarrow> rd x \<noteq> Inl Undefined) \<Longrightarrow>
   packed_tag env f (and_then (read_elems rd xs) (\<lambda>vs. VARINT_CASE env e (k vs))) \<noteq> Inl Undefined"
  by (intro packed_tag_not_Undefined nu_and_then read_elems_defined VARINT_CASE_not_Undefined)

lemma string_array_not_Undefined:
  "(\<And>x. x \<in> set xs \<Longrightarrow> read_stringview x \<noteq> Inl Undefined) \<Longrightarrow>
   and_then (read_elems read_stringview xs) (\<lambda>vs. put_strings env e f (rev vs)) \<noteq> Inl Undefined"
  by (intro nu_and_then read_elems_defined put_strings_not_Undefined)

lemma hasscalarfield_defined:
  assumes "label f \<noteq> UPB_LABEL_REPEATED" and "field_ok m msg f"
  shows "\<exists>has. upb_encode_hasscalarfield msg m f = Inr has \<and>
           (has \<longrightarrow> value_ok m f (\<not> is_proto2 m) (field_mem msg (offset f)))"
  using assms
  by (auto simp: field_ok.simps upb_encode_hasscalarfield_def upb_readcase_def upb_readhasbit_def
                 and_exp_eq_0_iff_not_bit
           split: option.splits if_splits)

lemma holds_type_reads:
  "holds_type t s \<Longrightarrow> t \<in> {UPB_DESCRIPTOR_TYPE_DOUBLE, UPB_DESCRIPTOR_TYPE_INT64,
       UPB_DESCRIPTOR_TYPE_UINT64, UPB_DESCRIPTOR_TYPE_FIXED64,
       UPB_DESCRIPTOR_TYPE_SFIXED64, UPB_DESCRIPTOR_TYPE_SINT64} \<Longrightarrow>
     read_bits64 s \<noteq> Inl Undefined \<and> elem_bytes 8 s \<noteq> Inl Undefined"
  "holds_type t s \<Longrightarrow> t \<in> {UPB_DESCRIPTOR_TYPE_FLOAT, UPB_DESCRIPTOR_TYPE_INT32,
       UPB_DESCRIPTOR_TYPE_UINT32, UPB_DESCRIPTOR_TYPE_ENUM,
       UPB_DESCRIPTOR_TYPE_FIXED32, UPB_DESCRIPTOR_TYPE_SFIXED32,
       UPB_DESCRIPTOR_TYPE_SINT32} \<Longrightarrow>
     read_bits32 s \<noteq> Inl Undefined \<and> elem_bytes 4 s \<noteq> Inl Undefined"
  "holds_type t s \<Longrightarrow> t = UPB_DESCRIPTOR_TYPE_BOOL \<Longrightarrow> read_bool s \<noteq> Inl Undefined"
  "holds_type t s \<Longrightarrow> t \<in> {UPB_DESCRIPTOR_TYPE_STRING, UPB_DESCRIPTOR_TYPE_BYTES} \<Longrightarrow>
     read_stringview s \<noteq> Inl Undefined"
  by (cases s; auto simp: holds_type_def read_bits64_def read_bits32_def read_bool_def
        read_stringview_def elem_bytes_def)+


lemma fixed64_array_defined:
  assumes "\<forall>x \<in> set (arr_data arr). holds_type (type f) x"
    and "type f \<in> {UPB_DESCRIPTOR_TYPE_DOUBLE, UPB_DESCRIPTOR_TYPE_INT64,
       UPB_DESCRIPTOR_TYPE_UINT64, UPB_DESCRIPTOR_TYPE_FIXED64,
       UPB_DESCRIPTOR_TYPE_SFIXED64, UPB_DESCRIPTOR_TYPE_SINT64}"
  shows "packed_tag env f (upb_put_fixedarray env e arr 8) \<noteq> Inl Undefined"
proof (intro packed_tag_not_Undefined fixedarray_not_Undefined)
  fix x assume "x \<in> set (arr_data arr)"
  with assms(1) have "holds_type (type f) x" by simp
  from holds_type_reads(1) [OF this assms(2)] show "elem_bytes 8 x \<noteq> Inl Undefined" by simp
qed

lemma fixed32_array_defined:
  assumes "\<forall>x \<in> set (arr_data arr). holds_type (type f) x"
    and "type f \<in> {UPB_DESCRIPTOR_TYPE_FLOAT, UPB_DESCRIPTOR_TYPE_INT32,
       UPB_DESCRIPTOR_TYPE_UINT32, UPB_DESCRIPTOR_TYPE_ENUM,
       UPB_DESCRIPTOR_TYPE_FIXED32, UPB_DESCRIPTOR_TYPE_SFIXED32,
       UPB_DESCRIPTOR_TYPE_SINT32}"
  shows "packed_tag env f (upb_put_fixedarray env e arr 4) \<noteq> Inl Undefined"
proof (intro packed_tag_not_Undefined fixedarray_not_Undefined)
  fix x assume "x \<in> set (arr_data arr)"
  with assms(1) have "holds_type (type f) x" by simp
  from holds_type_reads(2) [OF this assms(2)] show "elem_bytes 4 x \<noteq> Inl Undefined" by simp
qed

lemma varint64_array_defined:
  assumes "\<forall>x \<in> set xs. holds_type (type f) x"
    and "type f \<in> {UPB_DESCRIPTOR_TYPE_DOUBLE, UPB_DESCRIPTOR_TYPE_INT64,
       UPB_DESCRIPTOR_TYPE_UINT64, UPB_DESCRIPTOR_TYPE_FIXED64,
       UPB_DESCRIPTOR_TYPE_SFIXED64, UPB_DESCRIPTOR_TYPE_SINT64}"
  shows "packed_tag env f (and_then (read_elems read_bits64 xs) (\<lambda>vs. VARINT_CASE env e (k vs)))
         \<noteq> Inl Undefined"
proof (rule varint_array_not_Undefined)
  fix x assume "x \<in> set xs"
  with assms(1) have "holds_type (type f) x" by simp
  from holds_type_reads(1) [OF this assms(2)] show "read_bits64 x \<noteq> Inl Undefined" by simp
qed

lemma varint32_array_defined:
  assumes "\<forall>x \<in> set xs. holds_type (type f) x"
    and "type f \<in> {UPB_DESCRIPTOR_TYPE_FLOAT, UPB_DESCRIPTOR_TYPE_INT32,
       UPB_DESCRIPTOR_TYPE_UINT32, UPB_DESCRIPTOR_TYPE_ENUM,
       UPB_DESCRIPTOR_TYPE_FIXED32, UPB_DESCRIPTOR_TYPE_SFIXED32,
       UPB_DESCRIPTOR_TYPE_SINT32}"
  shows "packed_tag env f (and_then (read_elems read_bits32 xs) (\<lambda>vs. VARINT_CASE env e (k vs)))
         \<noteq> Inl Undefined"
proof (rule varint_array_not_Undefined)
  fix x assume "x \<in> set xs"
  with assms(1) have "holds_type (type f) x" by simp
  from holds_type_reads(2) [OF this assms(2)] show "read_bits32 x \<noteq> Inl Undefined" by simp
qed

lemma bool_array_defined:
  assumes "\<forall>x \<in> set xs. holds_type (type f) x" and "type f = UPB_DESCRIPTOR_TYPE_BOOL"
  shows "packed_tag env f (and_then (read_elems read_bool xs) (\<lambda>vs. VARINT_CASE env e (k vs)))
         \<noteq> Inl Undefined"
proof (rule varint_array_not_Undefined)
  fix x assume "x \<in> set xs"
  with assms(1) have "holds_type (type f) x" by simp
  from holds_type_reads(3) [OF this assms(2)] show "read_bool x \<noteq> Inl Undefined" .
qed

lemma string_array_defined:
  assumes "\<forall>x \<in> set xs. holds_type (type f) x"
    and "type f \<in> {UPB_DESCRIPTOR_TYPE_STRING, UPB_DESCRIPTOR_TYPE_BYTES}"
  shows "and_then (read_elems read_stringview xs) (\<lambda>vs. put_strings env e f (rev vs))
         \<noteq> Inl Undefined"
proof (rule string_array_not_Undefined)
  fix x assume "x \<in> set xs"
  with assms(1) have "holds_type (type f) x" by simp
  from holds_type_reads(4) [OF this assms(2)] show "read_stringview x \<noteq> Inl Undefined" .
qed

lemma nu_case_msg:
  "r \<noteq> Inl Undefined \<Longrightarrow> (\<And>e1 sz. r = Inr (e1, sz) \<Longrightarrow> k e1 sz \<noteq> Inl Undefined) \<Longrightarrow>
   (case r of Inl err \<Rightarrow> Inl err | Inr (e1, sz) \<Rightarrow> k e1 sz) \<noteq> Inl Undefined"
  by (cases r) auto

lemma message_Some_size:
  "upb_encode_message env e (Some msg) m = Inr (e1, sz) \<Longrightarrow> sz \<noteq> None"
  by (auto split: sum.splits)

lemma defined_encode:
  "(case mo of None \<Rightarrow> True | Some msg \<Rightarrow> msg_ok m msg) \<Longrightarrow>
     upb_encode_message env e mo m \<noteq> Inl Undefined"
  "(\<forall>f \<in> set fs. field_ok m msg f) \<Longrightarrow>
     upb_encode_message_fields env e msg m fs \<noteq> Inl Undefined"
  "value_ok m f p3 fm \<Longrightarrow> upb_encode_scalarfield env e fm m f p3 \<noteq> Inl Undefined"
  "array_ok m f fm \<Longrightarrow> upb_encode_array env e fm m f \<noteq> Inl Undefined"
  "(\<forall>x \<in> set xs. elem_ok subm True x) \<Longrightarrow> put_groups env e subm f xs \<noteq> Inl Undefined"
  "(\<forall>x \<in> set xs. elem_ok subm False x) \<Longrightarrow> put_messages env e subm f xs \<noteq> Inl Undefined"
proof (induction env e mo m and env e msg m fs and env e fm m f p3 and env e fm m f
         and env e subm f xs and env e subm f xs
       rule: upb_encode_message_upb_encode_message_fields_upb_encode_scalarfield_upb_encode_array_put_groups_put_messages.induct)
  case (1 env e m)
  then show ?case by simp
next
  case (2 env e msg m)
  from "2.prems" have "\<forall>f \<in> set (rev (fields m)). field_ok m msg f"
    by (simp add: msg_ok.simps)
  from "2.IH" [OF this] show ?case by (auto split: sum.splits)
next
  case (3 env e msg m)
  then show ?case by simp
next
  case (4 env e msg m f fs)
  let ?step = "if label f = UPB_LABEL_REPEATED
            then upb_encode_array env e (field_mem msg (offset f)) m f
            else case upb_encode_hasscalarfield msg m f of
                   Inl err \<Rightarrow> Inl err
                 | Inr has \<Rightarrow>
                     if has
                     then upb_encode_scalarfield env e (field_mem msg (offset f)) m f (\<not> is_proto2 m)
                     else Inr e"
  from "4.prems" have fo: "field_ok m msg f" and rest: "\<forall>f \<in> set fs. field_ok m msg f"
    by simp_all
  have step: "?step \<noteq> Inl Undefined"
  proof (cases "label f = UPB_LABEL_REPEATED")
    case True
    with fo have "array_ok m f (field_mem msg (offset f))" by (simp add: field_ok.simps)
    from "4.IH"(1) [OF True this] True show ?thesis by simp
  next
    case False
    from hasscalarfield_defined [OF False fo] obtain has
      where h: "upb_encode_hasscalarfield msg m f = Inr has"
        and v: "has \<longrightarrow> value_ok m f (\<not> is_proto2 m) (field_mem msg (offset f))" by blast
    show ?thesis
    proof (cases has)
      case True
      with v have "value_ok m f (\<not> is_proto2 m) (field_mem msg (offset f))" by simp
      from "4.IH"(2) [OF False h True this] False h True show ?thesis by simp
    next
      case False
      with \<open>label f \<noteq> UPB_LABEL_REPEATED\<close> h show ?thesis by simp
    qed
  qed
  show ?case
    unfolding upb_encode_message_fields.simps
  proof (rule nu_case [OF step])
    fix e1 assume e1: "?step = Inr e1"
    show "upb_encode_message_fields env e1 msg m fs \<noteq> Inl Undefined"
      by (rule "4.IH"(3) [OF e1 rest])
  qed
next
  case (5 env e fm m f is_proto3)
  define skip where "skip = (is_proto3 \<and> oneof_index f = None)"
  from "5.prems" have ht: "holds_type (type f) fm" by (simp add: value_ok.simps)
  note rd = holds_type_reads [OF ht]
  show ?case
  proof (cases "type f")
    case UPB_DESCRIPTOR_TYPE_GROUP
    with ht obtain p where fm: "fm = SubMsg p" by (cases fm) (auto simp: holds_type_def)
    from "5.prems" fm have idx: "submsg_index f < length (submsgs m)"
      and sub: "case p of None \<Rightarrow> True | Some sub \<Rightarrow> msg_ok (submsgs m ! submsg_index f) sub"
      by (auto simp: value_ok.simps split: if_splits option.splits)
    show ?thesis
    proof (cases "skip \<and> p = None")
      case True
      with fm idx UPB_DESCRIPTOR_TYPE_GROUP show ?thesis
        by (simp add: upb_encode_scalarfield.simps skip_def [symmetric])
    next
      case False
      have "(case upb_put_tag env e (number f) UPB_WIRE_TYPE_END_GROUP of
             Inl err \<Rightarrow> Inl err
           | Inr e1 \<Rightarrow>
               (case upb_encode_message env e1 p (submsgs m ! submsg_index f) of
                  Inl err \<Rightarrow> Inl err
                | Inr (e2, sz) \<Rightarrow> upb_put_tag env e2 (number f) UPB_WIRE_TYPE_START_GROUP))
            \<noteq> Inl Undefined"
      proof (rule nu_case [OF put_tag_not_Undefined])
        fix e1 assume e1: "upb_put_tag env e (number f) UPB_WIRE_TYPE_END_GROUP = Inr e1"
        show "(case upb_encode_message env e1 p (submsgs m ! submsg_index f) of
                  Inl err \<Rightarrow> Inl err
                | Inr (e2, sz) \<Rightarrow> upb_put_tag env e2 (number f) UPB_WIRE_TYPE_START_GROUP)
              \<noteq> Inl Undefined"
          by (rule nu_case_msg
                [OF "5.IH"(1) [OF skip_def UPB_DESCRIPTOR_TYPE_GROUP fm idx False e1 sub]])
             (rule put_tag_not_Undefined)
      qed
      with False fm idx UPB_DESCRIPTOR_TYPE_GROUP show ?thesis
        by (simp add: upb_encode_scalarfield.simps skip_def [symmetric])
    qed
  next
    case UPB_DESCRIPTOR_TYPE_MESSAGE
    with ht obtain p where fm: "fm = SubMsg p" by (cases fm) (auto simp: holds_type_def)
    from "5.prems" fm have idx: "submsg_index f < length (submsgs m)"
      and sub: "case p of None \<Rightarrow> True | Some sub \<Rightarrow> msg_ok (submsgs m ! submsg_index f) sub"
      and nn: "p = None \<longrightarrow> skip"
      using UPB_DESCRIPTOR_TYPE_MESSAGE
      by (auto simp: value_ok.simps skip_def split: if_splits option.splits)
    show ?thesis
    proof (cases "skip \<and> p = None")
      case True
      with fm idx UPB_DESCRIPTOR_TYPE_MESSAGE show ?thesis
        by (simp add: upb_encode_scalarfield.simps skip_def [symmetric])
    next
      case False
      with nn obtain sub' where p: "p = Some sub'" by (cases p) auto
      have "(case upb_encode_message env e p (submsgs m ! submsg_index f) of
             Inl err \<Rightarrow> Inl err
           | Inr (e1, sz) \<Rightarrow> (case sz of None \<Rightarrow> Inl Undefined
              | Some n \<Rightarrow> and_then (upb_put_varint env e1 (word_of_nat n)) (\<lambda>e2.
                             upb_put_tag env e2 (number f) UPB_WIRE_TYPE_DELIMITED)))
            \<noteq> Inl Undefined"
      proof (rule nu_case_msg
                [OF "5.IH"(2) [OF skip_def UPB_DESCRIPTOR_TYPE_MESSAGE fm idx False sub]])
        fix e1 sz
        assume r: "upb_encode_message env e p (submsgs m ! submsg_index f) = Inr (e1, sz)"
        from r [unfolded p] have "sz \<noteq> None" by (rule message_Some_size)
        then obtain n where sz: "sz = Some n" by (cases sz) auto
        have "and_then (upb_put_varint env e1 (word_of_nat n)) (\<lambda>e2.
                upb_put_tag env e2 (number f) UPB_WIRE_TYPE_DELIMITED) \<noteq> Inl Undefined"
          by (intro nu_and_then put_not_Undefined)
        with sz show "(case sz of None \<Rightarrow> Inl Undefined
              | Some n \<Rightarrow> and_then (upb_put_varint env e1 (word_of_nat n)) (\<lambda>e2.
                             upb_put_tag env e2 (number f) UPB_WIRE_TYPE_DELIMITED))
              \<noteq> Inl Undefined" by simp
      qed
      with False fm idx UPB_DESCRIPTOR_TYPE_MESSAGE show ?thesis
        by (simp add: upb_encode_scalarfield.simps skip_def [symmetric]
              split: sum.splits prod.splits option.splits)
    qed
  qed (use rd in \<open>simp_all add: upb_encode_scalarfield.simps Let_def
          nu_and_then CASE_not_Undefined put_not_Undefined string_not_Undefined\<close>)
next
  case (6 env e fm m f)
  show ?case
  proof (cases fm)
    case (ArrayPtr ap)
    show ?thesis
    proof (cases ap)
      case None
      with ArrayPtr show ?thesis by (simp add: upb_encode_array.simps)
    next
      case (Some arr)
      show ?thesis
      proof (cases "length (arr_data arr) \<noteq> 0")
        case False
        with ArrayPtr Some show ?thesis by (simp add: upb_encode_array.simps)
      next
        case True
        with "6.prems" ArrayPtr Some
        have ty: "\<not> arr_type arr \<noteq> upb_desctype_to_fieldtype2 (type f)"
          and el: "if type f = UPB_DESCRIPTOR_TYPE_GROUP \<or> type f = UPB_DESCRIPTOR_TYPE_MESSAGE
                   then submsg_index f < length (submsgs m) \<and>
                        (\<forall>x \<in> set (arr_data arr).
                           elem_ok (submsgs m ! submsg_index f) (type f = UPB_DESCRIPTOR_TYPE_GROUP) x)
                   else \<forall>x \<in> set (arr_data arr). holds_type (type f) x"
          by (auto simp: array_ok.simps split: if_splits)
        have sc: "\<forall>x \<in> set (arr_data arr). holds_type (type f) x"
          if "type f \<noteq> UPB_DESCRIPTOR_TYPE_GROUP" "type f \<noteq> UPB_DESCRIPTOR_TYPE_MESSAGE"
          using el that by simp
        show ?thesis
        proof (cases "type f")
          case UPB_DESCRIPTOR_TYPE_GROUP
          with el have idx: "submsg_index f < length (submsgs m)"
            and es: "\<forall>x \<in> set (rev (arr_data arr)). elem_ok (submsgs m ! submsg_index f) True x"
            by simp_all
          from "6.IH"(1) [OF ArrayPtr Some True ty UPB_DESCRIPTOR_TYPE_GROUP idx es]
          show ?thesis using ArrayPtr Some True ty idx
            by (simp add: upb_encode_array.simps UPB_DESCRIPTOR_TYPE_GROUP)
        next
          case UPB_DESCRIPTOR_TYPE_MESSAGE
          with el have idx: "submsg_index f < length (submsgs m)"
            and es: "\<forall>x \<in> set (rev (arr_data arr)). elem_ok (submsgs m ! submsg_index f) False x"
            by simp_all
          from "6.IH"(2) [OF ArrayPtr Some True ty UPB_DESCRIPTOR_TYPE_MESSAGE idx es]
          show ?thesis using ArrayPtr Some True ty idx
            by (simp add: upb_encode_array.simps UPB_DESCRIPTOR_TYPE_MESSAGE)
        qed (use ArrayPtr Some True ty sc in
              \<open>simp_all add: upb_encode_array.simps fixed64_array_defined fixed32_array_defined
                 varint64_array_defined [where k = "\<lambda>vs. vs"] varint64_array_defined
                 varint32_array_defined bool_array_defined string_array_defined\<close>)
      qed
    qed
  qed (use "6.prems" in \<open>simp_all add: array_ok.simps\<close>)
next
  case (7 env e subm f)
  then show ?case by simp
next
  case (8 env e subm f x xs)
  from "8.prems" have ex: "elem_ok subm True x" and rest: "\<forall>x \<in> set xs. elem_ok subm True x"
    by simp_all
  from ex obtain p where x: "x = SubMsg p"
    and sub: "case p of None \<Rightarrow> True | Some sub \<Rightarrow> msg_ok subm sub"
    by (cases x) (auto simp: elem_ok.simps split: option.splits)
  have "(case upb_put_tag env e (number f) UPB_WIRE_TYPE_END_GROUP of
         Inl err \<Rightarrow> Inl err
       | Inr e1 \<Rightarrow>
           (case upb_encode_message env e1 p subm of
              Inl err \<Rightarrow> Inl err
            | Inr (e2, sz) \<Rightarrow>
                (case upb_put_tag env e2 (number f) UPB_WIRE_TYPE_START_GROUP of
                   Inl err \<Rightarrow> Inl err
                 | Inr e3 \<Rightarrow> put_groups env e3 subm f xs))) \<noteq> Inl Undefined"
  proof (rule nu_case [OF put_tag_not_Undefined])
    fix e1 assume e1: "upb_put_tag env e (number f) UPB_WIRE_TYPE_END_GROUP = Inr e1"
    show "(case upb_encode_message env e1 p subm of
              Inl err \<Rightarrow> Inl err
            | Inr (e2, sz) \<Rightarrow>
                (case upb_put_tag env e2 (number f) UPB_WIRE_TYPE_START_GROUP of
                   Inl err \<Rightarrow> Inl err
                 | Inr e3 \<Rightarrow> put_groups env e3 subm f xs)) \<noteq> Inl Undefined"
    proof (rule nu_case_msg [OF "8.IH"(1) [OF x e1 sub]])
      fix e2 sz assume e2: "upb_encode_message env e1 p subm = Inr (e2, sz)"
      show "(case upb_put_tag env e2 (number f) UPB_WIRE_TYPE_START_GROUP of
                   Inl err \<Rightarrow> Inl err
                 | Inr e3 \<Rightarrow> put_groups env e3 subm f xs) \<noteq> Inl Undefined"
      proof (rule nu_case [OF put_tag_not_Undefined])
        fix e3 assume e3: "upb_put_tag env e2 (number f) UPB_WIRE_TYPE_START_GROUP = Inr e3"
        show "put_groups env e3 subm f xs \<noteq> Inl Undefined"
          by (rule "8.IH"(2) [OF x e1 e2 refl e3 rest])
      qed
    qed
  qed
  then show ?case using x by simp
next
  case (9 env e subm f)
  then show ?case by simp
next
  case (10 env e subm f x xs)
  from "10.prems" have ex: "elem_ok subm False x" and rest: "\<forall>x \<in> set xs. elem_ok subm False x"
    by simp_all
  from ex obtain sub where x: "x = SubMsg (Some sub)" and sub: "msg_ok subm sub"
    by (cases x) (auto simp: elem_ok.simps split: option.splits)
  have "(case upb_encode_message env e (Some sub) subm of
             Inl err \<Rightarrow> Inl err
           | Inr (e1, sz) \<Rightarrow> (case sz of None \<Rightarrow> Inl Undefined
             | Some sz \<Rightarrow>
               (case and_then (upb_put_varint env e1 (word_of_nat sz)) (\<lambda>e2.
                     upb_put_tag env e2 (number f) UPB_WIRE_TYPE_DELIMITED) of
                  Inl err \<Rightarrow> Inl err
                | Inr e3 \<Rightarrow> put_messages env e3 subm f xs))) \<noteq> Inl Undefined"
  proof (rule nu_case_msg)
    show "upb_encode_message env e (Some sub) subm \<noteq> Inl Undefined"
      by (rule "10.IH"(1) [OF x]) (simp add: sub)
  next
    fix e1 sz assume e1: "upb_encode_message env e (Some sub) subm = Inr (e1, sz)"
    then have "sz \<noteq> None" by (rule message_Some_size)
    then obtain n where sz: "sz = Some n" by (cases sz) auto
    have "(case and_then (upb_put_varint env e1 (word_of_nat n)) (\<lambda>e2.
                     upb_put_tag env e2 (number f) UPB_WIRE_TYPE_DELIMITED) of
                  Inl err \<Rightarrow> Inl err
                | Inr e3 \<Rightarrow> put_messages env e3 subm f xs) \<noteq> Inl Undefined"
    proof (rule nu_case)
      show "and_then (upb_put_varint env e1 (word_of_nat n)) (\<lambda>e2.
              upb_put_tag env e2 (number f) UPB_WIRE_TYPE_DELIMITED) \<noteq> Inl Undefined"
        by (intro nu_and_then put_not_Undefined)
    next
      fix e3 assume e3: "and_then (upb_put_varint env e1 (word_of_nat n)) (\<lambda>e2.
              upb_put_tag env e2 (number f) UPB_WIRE_TYPE_DELIMITED) = Inr e3"
      show "put_messages env e3 subm f xs \<noteq> Inl Undefined"
        by (rule "10.IH"(2) [OF x e1 [unfolded sz] refl refl e3 rest])
    qed
    with sz show "(case sz of None \<Rightarrow> Inl Undefined
             | Some sz \<Rightarrow>
               (case and_then (upb_put_varint env e1 (word_of_nat sz)) (\<lambda>e2.
                     upb_put_tag env e2 (number f) UPB_WIRE_TYPE_DELIMITED) of
                  Inl err \<Rightarrow> Inl err
                | Inr e3 \<Rightarrow> put_messages env e3 subm f xs)) \<noteq> Inl Undefined" by simp
  qed
  then show ?case using x by (simp split: prod.splits option.splits sum.splits)
qed


subsection \<open>What the entry point returns\<close>

text \<open>Claim C9. For every layout and record, what \<open>upb_encode\<close> returns follows from what
  \<open>upb_encode_message\<close> returned, started in the empty state, in one of three ways.
  The message encoder succeeded and left output: \<open>upb_encode\<close> returns the cursor, which
  is not null, the length \<open>limit - ptr\<close>, which is not 0, and the caller finds the bytes
  of \<open>[ptr, limit)\<close> there. It succeeded and left no output: \<open>upb_encode\<close> returns the
  address of its static \<open>ch\<close> (not \<open>NULL\<close>) and length 0. It failed: then the request it
  failed on (block \<open>q\<close>, old size \<open>old\<close>, new size \<open>new\<close>) asked the allocator for a
  larger block and the allocator denied it, and \<open>upb_encode\<close> returns \<open>NULL\<close> and length
  0, with no bytes. The behaviour is undefined only for a record that does not fit the
  layout. So for a record that fits (or the null record) and an allocator that grants
  every request for a larger block, the encoder succeeds and \<open>upb_encode\<close> returns a
  pointer that is not \<open>NULL\<close>.\<close>

theorem upb_encode_outcomes:
  "(case upb_encode_message env \<lparr>heap = h, buf = 0, ptr = 0, limit = 0\<rparr> msg m of
      Inr (e', sz) \<Rightarrow>
        if limit e' - ptr e' = 0
        then upb_encode env h msg m = Inr (Static_ch, 0, [])
        else ptr e' \<noteq> 0 \<and>
             upb_encode env h msg m = Inr (Ptr (ptr e'), limit e' - ptr e', written e')
    | Inl (AllocationFailure q old new) \<Rightarrow>
        upb_encode env h msg m = Inr (NULL, 0, []) \<and> env q old new = 0 \<and> old < new
    | Inl Undefined \<Rightarrow>
        upb_encode env h msg m = Inl Undefined
        \<and> \<not> (case msg of None \<Rightarrow> True | Some r \<Rightarrow> msg_ok m r))
   \<and> ((case msg of None \<Rightarrow> True | Some r \<Rightarrow> msg_ok m r)
        \<and> (\<forall>q old new. old < new \<longrightarrow> env q old new \<noteq> 0) \<longrightarrow>
      (\<exists>e' sz. upb_encode_message env \<lparr>heap = h, buf = 0, ptr = 0, limit = 0\<rparr> msg m
                  = Inr (e', sz))
      \<and> (\<exists>p n out. upb_encode env h msg m = Inr (p, n, out) \<and> p \<noteq> NULL))"
proof -
  let ?e = "\<lparr>heap = h, buf = 0, ptr = 0, limit = 0\<rparr>"
  let ?fits = "case msg of None \<Rightarrow> True | Some r \<Rightarrow> msg_ok m r"
  have ok: "ok_res env (used ?e)
      (case upb_encode_message env ?e msg m of Inl err \<Rightarrow> Inl err | Inr (e', sz) \<Rightarrow> Inr e')"
    by (rule ok_encode(1) [OF wf_state_init])
  have df: "upb_encode_message env ?e msg m \<noteq> Inl Undefined" if ?fits
    by (rule defined_encode(1) [OF that])
  show ?thesis
  proof (cases "upb_encode_message env ?e msg m")
    case (Inl err)
    show ?thesis
    proof (cases err)
      case (AllocationFailure q old new)
      with ok Inl have "env q old new = 0" "old < new" by (simp_all add: ok_res_def)
      with Inl AllocationFailure show ?thesis by (auto simp: upb_encode_def)
    next
      case Undefined
      with Inl df have "\<not> ?fits" by auto
      with Inl Undefined show ?thesis by (simp add: upb_encode_def)
    qed
  next
    case (Inr pr)
    obtain e' sz where pr: "pr = (e', sz)" by (cases pr)
    from ok Inr pr have wf: "wf_state e'" by simp
    show ?thesis
    proof (cases "limit e' - ptr e' = 0")
      case True
      with Inr pr show ?thesis by (simp add: upb_encode_def)
    next
      case False
      with wf have nz: "ptr e' \<noteq> 0" and le: "ptr e' \<le> limit e'" by (auto simp: wf_state_def)
      from le have "bytes_between (heap e') (ptr e') (ptr e' + (limit e' - ptr e')) = written e'"
        by (simp add: written_def)
      with Inr pr False nz show ?thesis by (simp add: upb_encode_def Let_def)
    qed
  qed
qed

lemmas eval_defs = upb_encode_def
  upb_encode_scalarfield.simps upb_encode_array.simps upb_encode_hasscalarfield_def and_then_def
  read_bits32_def read_bits64_def read_bool_def read_stringview_def CASE_def
  upb_put_varint_def upb_put_tag_def upb_put_bytes_def upb_encode_reserve_def growbuffer_cases
  upb_env_realloc_def UPB_PB_VARINT_MAX_LEN_def UPB_WIRE_TYPE_VARINT_def UPB_WIRE_TYPE_DELIMITED_def
  upb_roundup_pow2_def upb_roundup_pow2_loop.simps
  upb_encode_varint_def varint_loop.simps Let_def bytes_between_def memmove_def memcpy_def
  ptrdiff_to_size_def VARINT_CASE_def packed_tag_def env_bump_def

lemmas fit_defs = msg_ok.simps field_ok.simps value_ok.simps array_ok.simps elem_ok.simps
  holds_type_def

lemma ex_inner_fits: "msg_ok ex_inner_layout ex_inner_msg"
  by (simp add: fit_defs ex_inner_layout_def ex_inner_msg_def)

lemma ex_zero_fits: "msg_ok ex_inner_layout ex_zero_msg"
  by (simp add: fit_defs ex_inner_layout_def ex_zero_msg_def)

lemma ex_inner_message:
  "\<exists>e'. upb_encode_message env_bump \<lparr>heap = (\<lambda>a. 0), buf = 0, ptr = 0, limit = 0\<rparr>
           (Some ex_inner_msg) ex_inner_layout = Inr (e', Some 18446744073709547394)
        \<and> ptr e' = 4222 \<and> limit e' = 4224 \<and> written e' = [0x08, 0x01]"
  by (simp add: eval_defs ex_inner_msg_def ex_inner_layout_def written_def)

lemma ex_zero_message:
  "upb_encode_message env_bump \<lparr>heap = (\<lambda>a. 0), buf = 0, ptr = 0, limit = 0\<rparr>
     (Some ex_zero_msg) ex_inner_layout
   = Inr (\<lparr>heap = (\<lambda>a. 0), buf = 0, ptr = 0, limit = 0\<rparr>, Some 0)"
  by (simp add: eval_defs ex_zero_msg_def ex_inner_layout_def)

lemma ex_deny_message:
  "upb_encode_message env_deny \<lparr>heap = (\<lambda>a. 0), buf = 0, ptr = 0, limit = 0\<rparr>
     (Some ex_inner_msg) ex_inner_layout = Inl (AllocationFailure 0 0 128)"
  by (simp add: eval_defs ex_inner_msg_def ex_inner_layout_def env_deny_def)

theorem upb_encode_outcomes_witness:
  "msg_ok ex_inner_layout ex_inner_msg \<and> msg_ok ex_inner_layout ex_zero_msg
   \<and> upb_encode env_bump (\<lambda>a. 0) (Some ex_inner_msg) ex_inner_layout
       = Inr (Ptr 4222, 2, [0x08, 0x01])
   \<and> upb_encode env_bump (\<lambda>a. 0) (Some ex_zero_msg) ex_inner_layout = Inr (Static_ch, 0, [])
   \<and> upb_encode env_bump (\<lambda>a. 0) None ex_inner_layout = Inr (Static_ch, 0, [])
   \<and> upb_encode env_deny (\<lambda>a. 0) (Some ex_inner_msg) ex_inner_layout = Inr (NULL, 0, [])
   \<and> env_deny 0 0 128 = 0
   \<and> msg_ok ex_outer_layout ex_outer_msg
   \<and> (\<exists>e' sz. upb_encode_message env_bump \<lparr>heap = (\<lambda>a. 0), buf = 0, ptr = 0, limit = 0\<rparr>
                 (Some ex_outer_msg) ex_outer_layout = Inr (e', sz))
   \<and> (\<exists>p n out. upb_encode env_bump (\<lambda>a. 0) (Some ex_outer_msg) ex_outer_layout
                 = Inr (p, n, out) \<and> p \<noteq> NULL)"
proof -
  let ?e = "\<lparr>heap = (\<lambda>a. 0), buf = 0, ptr = 0, limit = 0\<rparr>"
  from ex_inner_message obtain e' where
    r: "upb_encode_message env_bump ?e (Some ex_inner_msg) ex_inner_layout
          = Inr (e', Some 18446744073709547394)"
    and e': "ptr e' = 4222" "limit e' = 4224" "written e' = [0x08, 0x01]" by blast
  have a: "upb_encode env_bump (\<lambda>a. 0) (Some ex_inner_msg) ex_inner_layout
       = Inr (Ptr 4222, 2, [0x08, 0x01])"
    using upb_encode_outcomes [where msg = "Some ex_inner_msg" and m = ex_inner_layout and env = env_bump and h = "\<lambda>a. 0"]
      ex_inner_fits r e' by simp
  have b: "upb_encode env_bump (\<lambda>a. 0) (Some ex_zero_msg) ex_inner_layout = Inr (Static_ch, 0, [])"
    using upb_encode_outcomes [where msg = "Some ex_zero_msg" and m = ex_inner_layout and env = env_bump and h = "\<lambda>a. 0"]
      ex_zero_fits ex_zero_message by simp
  have n: "upb_encode env_bump (\<lambda>a. 0) None ex_inner_layout = Inr (Static_ch, 0, [])"
    using upb_encode_outcomes [where msg = None and m = ex_inner_layout and env = env_bump and h = "\<lambda>a. 0"]
    by (simp split: sum.splits error.splits prod.splits if_splits)
  have c: "upb_encode env_deny (\<lambda>a. 0) (Some ex_inner_msg) ex_inner_layout = Inr (NULL, 0, [])
           \<and> env_deny 0 0 128 = 0"
    using upb_encode_outcomes [where msg = "Some ex_inner_msg" and m = ex_inner_layout and env = env_deny and h = "\<lambda>a. 0"]
      ex_inner_fits ex_deny_message by simp
  have fo: "msg_ok ex_outer_layout ex_outer_msg"
    by (simp add: fit_defs ex_outer_layout_def ex_outer_msg_def ex_inner_layout_def ex_inner_msg_def)
  have gr: "\<forall>q old new. old < new \<longrightarrow> env_bump q old new \<noteq> 0" by (simp add: env_bump_def)
  have d: "(\<exists>e' sz. upb_encode_message env_bump ?e (Some ex_outer_msg) ex_outer_layout = Inr (e', sz))
     \<and> (\<exists>p n out. upb_encode env_bump (\<lambda>a. 0) (Some ex_outer_msg) ex_outer_layout
                 = Inr (p, n, out) \<and> p \<noteq> NULL)"
    using upb_encode_outcomes [where msg = "Some ex_outer_msg" and m = ex_outer_layout and env = env_bump and h = "\<lambda>a. 0"] fo gr
    by simp
  from a b n c d fo ex_inner_fits ex_zero_fits show ?thesis by simp
qed

text \<open>Claim C3 (a null record encodes to nothing and reports length 0), evaluated on the
  code. With a null record \<open>upb_encode_message\<close> succeeds and returns the state as it
  was, but it returns before the assignment to \<open>*size\<close>: nothing is reported. A caller
  that does not skip the null pointer itself (a message field of a proto2 layout, or of
  a oneof) then reads its uninitialised \<open>size\<close>.\<close>

theorem encode_message_null_leaves_size:
  "upb_encode_message env e None m = Inr (e, None)
   \<and> upb_encode_scalarfield env e (SubMsg None) (Layout [m] fs os True)
        \<lparr>number = 1, offset = 0, hasbit = Some 0, oneof_index = None, submsg_index = 0,
          type = UPB_DESCRIPTOR_TYPE_MESSAGE, label = UPB_LABEL_OPTIONAL\<rparr> False = Inl Undefined"
  by (simp add: upb_encode_scalarfield.simps)

text \<open>Claim C2 (the length prefix of a submessage is the number of bytes of its body),
  evaluated on the code. The submessage is the first thing written, so \<open>buf_end\<close> is
  the \<open>NULL\<close> cursor of the empty state; the body (\<open>08 01\<close>) is written into the block
  allocated meanwhile, and \<open>buf_end - e->ptr\<close> is the difference of two unrelated
  addresses: \<open>upb_encode_message\<close> reports \<open>2^64 - 4222\<close> for a body of 2 bytes, and the
  enclosing field gets that number as its length prefix (ten bytes) instead of \<open>02\<close>.\<close>

theorem nested_length_prefix_wrong:
  "(\<exists>e. upb_encode_message env_bump \<lparr>heap = (\<lambda>a. 0), buf = 0, ptr = 0, limit = 0\<rparr>
          (Some ex_inner_msg) ex_inner_layout = Inr (e, Some 18446744073709547394)
        \<and> used e = 2 \<and> written e = [0x08, 0x01])
   \<and> upb_encode env_bump (\<lambda>a. 0) (Some ex_outer_msg) ex_outer_layout =
       Inr (Ptr 4211, 13,
            [0x0A, 0x82, 0xDF, 0xFF, 0xFF, 0xFF, 0xFF, 0xFF, 0xFF, 0xFF, 0x01, 0x08, 0x01])"
  by (simp add: eval_defs ex_inner_msg_def ex_inner_layout_def ex_outer_msg_def ex_outer_layout_def
        used_def written_def)


subsection \<open>Presence and elision of singular fields\<close>

lemma ok_res_grows: "ok_res env (Suc u) r \<Longrightarrow> r = Inr e' \<Longrightarrow> u < used e'"
  by simp

lemma CASE_emit_iff:
  assumes "wf_state e" and "\<And>e. wf_state e \<Longrightarrow> ok_res env (used e) (put e)"
    and "CASE env e f skip z put wt = Inr e'"
  shows "(used e < used e') = (\<not> (skip \<and> z))" and "skip \<and> z \<Longrightarrow> e' = e"
proof -
  show "(used e < used e') = (\<not> (skip \<and> z))"
  proof (cases "skip \<and> z")
    case True
    with assms(3) show ?thesis by (simp add: CASE_def)
  next
    case False
    from ok_CASE_emit [OF assms(1,2) False, of f wt] assms(3) False show ?thesis by simp
  qed
  show "skip \<and> z \<Longrightarrow> e' = e" using assms(3) by (simp add: CASE_def)
qed

lemma and_then_Inr: "and_then r k = Inr y \<Longrightarrow> \<exists>v. r = Inr v \<and> k v = Inr y"
  by (cases r) (simp_all add: and_then_def)

lemma read_bits64_Inr: "read_bits64 s = Inr v \<Longrightarrow> s = Bits64 v"
  by (cases s) (simp_all add: read_bits64_def)

lemma read_bits32_Inr: "read_bits32 s = Inr v \<Longrightarrow> s = Bits32 v"
  by (cases s) (simp_all add: read_bits32_def)

lemma read_bool_Inr: "read_bool s = Inr v \<Longrightarrow> s = BoolVal v"
  by (cases s) (simp_all add: read_bool_def)

lemma read_stringview_Inr: "read_stringview s = Inr v \<Longrightarrow> s = StringView v"
  by (cases s) (simp_all add: read_stringview_def)

lemma scalarfield_emit:
  assumes wf: "wf_state e" and r: "upb_encode_scalarfield env e fm m f p3 = Inr e'"
  shows "(used e < used e') = (\<not> ((p3 \<and> oneof_index f = None) \<and> is_zero_value (type f) fm))
       \<and> ((p3 \<and> oneof_index f = None) \<and> is_zero_value (type f) fm \<longrightarrow> e' = e)"
proof -
  define skip where "skip = (p3 \<and> oneof_index f = None)"
  have pv: "\<And>e v. wf_state e \<Longrightarrow> ok_res env (used e) (upb_put_varint env e v)"
    by (rule ok_res_weaken [OF ok_put_varint1]) simp_all
  have p64: "\<And>e v. wf_state e \<Longrightarrow> ok_res env (used e) (upb_put_fixed64 env e v)"
    by (rule ok_res_weaken [OF ok_put_fixed64]) simp_all
  have p32: "\<And>e v. wf_state e \<Longrightarrow> ok_res env (used e) (upb_put_fixed32 env e v)"
    by (rule ok_res_weaken [OF ok_put_fixed32]) simp_all
  have pd: "\<And>e v. wf_state e \<Longrightarrow> ok_res env (used e) (upb_put_double env e v)"
    unfolding upb_put_double_def by (rule p64)
  have pf: "\<And>e v. wf_state e \<Longrightarrow> ok_res env (used e) (upb_put_float env e v)"
    unfolding upb_put_float_def by (rule p32)
  note ci = CASE_emit_iff(1) [OF wf]
  note cs = CASE_emit_iff(2) [OF wf]
  show ?thesis
    unfolding skip_def [symmetric]
  proof (cases "type f")
    case UPB_DESCRIPTOR_TYPE_DOUBLE
    with r obtain v where v: "fm = Bits64 v"
      "CASE env e f skip (double_is_zero v) (\<lambda>e. upb_put_double env e v) UPB_WIRE_TYPE_64BIT = Inr e'"
      by (auto simp: upb_encode_scalarfield.simps skip_def dest!: and_then_Inr read_bits64_Inr)
    show "(used e < used e') = (\<not> (skip \<and> is_zero_value (type f) fm)) \<and> (skip \<and> is_zero_value (type f) fm \<longrightarrow> e' = e)"
      using v(1) ci [OF pd v(2)] cs [OF pd v(2)] UPB_DESCRIPTOR_TYPE_DOUBLE by (simp add: is_zero_value_def)
  next
    case UPB_DESCRIPTOR_TYPE_FLOAT
    with r obtain v where v: "fm = Bits32 v"
      "CASE env e f skip (float_is_zero v) (\<lambda>e. upb_put_float env e v) UPB_WIRE_TYPE_32BIT = Inr e'"
      by (auto simp: upb_encode_scalarfield.simps skip_def dest!: and_then_Inr read_bits32_Inr)
    show "(used e < used e') = (\<not> (skip \<and> is_zero_value (type f) fm)) \<and> (skip \<and> is_zero_value (type f) fm \<longrightarrow> e' = e)"
      using v(1) ci [OF pf v(2)] cs [OF pf v(2)] UPB_DESCRIPTOR_TYPE_FLOAT by (simp add: is_zero_value_def)
  next
    case UPB_DESCRIPTOR_TYPE_INT64
    with r obtain v where v: "fm = Bits64 v"
      "CASE env e f skip (v = 0) (\<lambda>e. upb_put_varint env e v) UPB_WIRE_TYPE_VARINT = Inr e'"
      by (auto simp: upb_encode_scalarfield.simps skip_def dest!: and_then_Inr read_bits64_Inr)
    show "(used e < used e') = (\<not> (skip \<and> is_zero_value (type f) fm)) \<and> (skip \<and> is_zero_value (type f) fm \<longrightarrow> e' = e)"
      using v(1) ci [OF pv v(2)] cs [OF pv v(2)] UPB_DESCRIPTOR_TYPE_INT64 by (simp add: is_zero_value_def)
  next
    case UPB_DESCRIPTOR_TYPE_UINT64
    with r obtain v where v: "fm = Bits64 v"
      "CASE env e f skip (v = 0) (\<lambda>e. upb_put_varint env e v) UPB_WIRE_TYPE_VARINT = Inr e'"
      by (auto simp: upb_encode_scalarfield.simps skip_def dest!: and_then_Inr read_bits64_Inr)
    show "(used e < used e') = (\<not> (skip \<and> is_zero_value (type f) fm)) \<and> (skip \<and> is_zero_value (type f) fm \<longrightarrow> e' = e)"
      using v(1) ci [OF pv v(2)] cs [OF pv v(2)] UPB_DESCRIPTOR_TYPE_UINT64 by (simp add: is_zero_value_def)
  next
    case UPB_DESCRIPTOR_TYPE_INT32
    with r obtain v where v: "fm = Bits32 v"
      "CASE env e f skip (v = 0) (\<lambda>e. upb_put_varint env e (ucast v)) UPB_WIRE_TYPE_VARINT = Inr e'"
      by (auto simp: upb_encode_scalarfield.simps skip_def dest!: and_then_Inr read_bits32_Inr)
    show "(used e < used e') = (\<not> (skip \<and> is_zero_value (type f) fm)) \<and> (skip \<and> is_zero_value (type f) fm \<longrightarrow> e' = e)"
      using v(1) ci [OF pv v(2)] cs [OF pv v(2)] UPB_DESCRIPTOR_TYPE_INT32 by (simp add: is_zero_value_def)
  next
    case UPB_DESCRIPTOR_TYPE_FIXED64
    with r obtain v where v: "fm = Bits64 v"
      "CASE env e f skip (v = 0) (\<lambda>e. upb_put_fixed64 env e v) UPB_WIRE_TYPE_64BIT = Inr e'"
      by (auto simp: upb_encode_scalarfield.simps skip_def dest!: and_then_Inr read_bits64_Inr)
    show "(used e < used e') = (\<not> (skip \<and> is_zero_value (type f) fm)) \<and> (skip \<and> is_zero_value (type f) fm \<longrightarrow> e' = e)"
      using v(1) ci [OF p64 v(2)] cs [OF p64 v(2)] UPB_DESCRIPTOR_TYPE_FIXED64 by (simp add: is_zero_value_def)
  next
    case UPB_DESCRIPTOR_TYPE_FIXED32
    with r obtain v where v: "fm = Bits32 v"
      "CASE env e f skip (v = 0) (\<lambda>e. upb_put_fixed32 env e v) UPB_WIRE_TYPE_32BIT = Inr e'"
      by (auto simp: upb_encode_scalarfield.simps skip_def dest!: and_then_Inr read_bits32_Inr)
    show "(used e < used e') = (\<not> (skip \<and> is_zero_value (type f) fm)) \<and> (skip \<and> is_zero_value (type f) fm \<longrightarrow> e' = e)"
      using v(1) ci [OF p32 v(2)] cs [OF p32 v(2)] UPB_DESCRIPTOR_TYPE_FIXED32 by (simp add: is_zero_value_def)
  next
    case UPB_DESCRIPTOR_TYPE_BOOL
    with r obtain v where v: "fm = BoolVal v"
      "CASE env e f skip (\<not> v) (\<lambda>e. upb_put_varint env e (if v then 1 else 0)) UPB_WIRE_TYPE_VARINT = Inr e'"
      by (auto simp: upb_encode_scalarfield.simps skip_def dest!: and_then_Inr read_bool_Inr)
    show "(used e < used e') = (\<not> (skip \<and> is_zero_value (type f) fm)) \<and> (skip \<and> is_zero_value (type f) fm \<longrightarrow> e' = e)"
      using v(1) ci [OF pv v(2)] cs [OF pv v(2)] UPB_DESCRIPTOR_TYPE_BOOL by (simp add: is_zero_value_def)
  next
    case UPB_DESCRIPTOR_TYPE_UINT32
    with r obtain v where v: "fm = Bits32 v"
      "CASE env e f skip (v = 0) (\<lambda>e. upb_put_varint env e (ucast v)) UPB_WIRE_TYPE_VARINT = Inr e'"
      by (auto simp: upb_encode_scalarfield.simps skip_def dest!: and_then_Inr read_bits32_Inr)
    show "(used e < used e') = (\<not> (skip \<and> is_zero_value (type f) fm)) \<and> (skip \<and> is_zero_value (type f) fm \<longrightarrow> e' = e)"
      using v(1) ci [OF pv v(2)] cs [OF pv v(2)] UPB_DESCRIPTOR_TYPE_UINT32 by (simp add: is_zero_value_def)
  next
    case UPB_DESCRIPTOR_TYPE_ENUM
    with r obtain v where v: "fm = Bits32 v"
      "CASE env e f skip (v = 0) (\<lambda>e. upb_put_varint env e (ucast v)) UPB_WIRE_TYPE_VARINT = Inr e'"
      by (auto simp: upb_encode_scalarfield.simps skip_def dest!: and_then_Inr read_bits32_Inr)
    show "(used e < used e') = (\<not> (skip \<and> is_zero_value (type f) fm)) \<and> (skip \<and> is_zero_value (type f) fm \<longrightarrow> e' = e)"
      using v(1) ci [OF pv v(2)] cs [OF pv v(2)] UPB_DESCRIPTOR_TYPE_ENUM by (simp add: is_zero_value_def)
  next
    case UPB_DESCRIPTOR_TYPE_SFIXED32
    with r obtain v where v: "fm = Bits32 v"
      "CASE env e f skip (v = 0) (\<lambda>e. upb_put_fixed32 env e v) UPB_WIRE_TYPE_32BIT = Inr e'"
      by (auto simp: upb_encode_scalarfield.simps skip_def dest!: and_then_Inr read_bits32_Inr)
    show "(used e < used e') = (\<not> (skip \<and> is_zero_value (type f) fm)) \<and> (skip \<and> is_zero_value (type f) fm \<longrightarrow> e' = e)"
      using v(1) ci [OF p32 v(2)] cs [OF p32 v(2)] UPB_DESCRIPTOR_TYPE_SFIXED32 by (simp add: is_zero_value_def)
  next
    case UPB_DESCRIPTOR_TYPE_SFIXED64
    with r obtain v where v: "fm = Bits64 v"
      "CASE env e f skip (v = 0) (\<lambda>e. upb_put_fixed64 env e v) UPB_WIRE_TYPE_64BIT = Inr e'"
      by (auto simp: upb_encode_scalarfield.simps skip_def dest!: and_then_Inr read_bits64_Inr)
    show "(used e < used e') = (\<not> (skip \<and> is_zero_value (type f) fm)) \<and> (skip \<and> is_zero_value (type f) fm \<longrightarrow> e' = e)"
      using v(1) ci [OF p64 v(2)] cs [OF p64 v(2)] UPB_DESCRIPTOR_TYPE_SFIXED64 by (simp add: is_zero_value_def)
  next
    case UPB_DESCRIPTOR_TYPE_SINT32
    with r obtain v where v: "fm = Bits32 v"
      "CASE env e f skip (v = 0) (\<lambda>e. upb_put_varint env e (ucast (upb_zzencode_32 v))) UPB_WIRE_TYPE_VARINT = Inr e'"
      by (auto simp: upb_encode_scalarfield.simps skip_def dest!: and_then_Inr read_bits32_Inr)
    show "(used e < used e') = (\<not> (skip \<and> is_zero_value (type f) fm)) \<and> (skip \<and> is_zero_value (type f) fm \<longrightarrow> e' = e)"
      using v(1) ci [OF pv v(2)] cs [OF pv v(2)] UPB_DESCRIPTOR_TYPE_SINT32 by (simp add: is_zero_value_def)
  next
    case UPB_DESCRIPTOR_TYPE_SINT64
    with r obtain v where v: "fm = Bits64 v"
      "CASE env e f skip (v = 0) (\<lambda>e. upb_put_varint env e (upb_zzencode_64 v)) UPB_WIRE_TYPE_VARINT = Inr e'"
      by (auto simp: upb_encode_scalarfield.simps skip_def dest!: and_then_Inr read_bits64_Inr)
    show "(used e < used e') = (\<not> (skip \<and> is_zero_value (type f) fm)) \<and> (skip \<and> is_zero_value (type f) fm \<longrightarrow> e' = e)"
      using v(1) ci [OF pv v(2)] cs [OF pv v(2)] UPB_DESCRIPTOR_TYPE_SINT64 by (simp add: is_zero_value_def)
  next
    case UPB_DESCRIPTOR_TYPE_STRING
    with r obtain v where v: "fm = StringView v"
      "(if skip \<and> v = [] then Inr e
        else and_then (upb_put_bytes env e v) (\<lambda>e1.
             and_then (upb_put_varint env e1 (word_of_nat (length v))) (\<lambda>e2.
             upb_put_tag env e2 (number f) UPB_WIRE_TYPE_DELIMITED))) = Inr e'"
      by (auto simp: upb_encode_scalarfield.simps skip_def dest!: and_then_Inr read_stringview_Inr)
    show "(used e < used e') = (\<not> (skip \<and> is_zero_value (type f) fm)) \<and> (skip \<and> is_zero_value (type f) fm \<longrightarrow> e' = e)"
    proof (cases "skip \<and> v = []")
      case True
      with v show ?thesis by (simp add: is_zero_value_def)
    next
      case False
      with v ok_string [OF wf, of env v "number f" UPB_WIRE_TYPE_DELIMITED]
      show ?thesis by (auto simp: is_zero_value_def)
    qed
  next
    case UPB_DESCRIPTOR_TYPE_BYTES
    with r obtain v where v: "fm = StringView v"
      "(if skip \<and> v = [] then Inr e
        else and_then (upb_put_bytes env e v) (\<lambda>e1.
             and_then (upb_put_varint env e1 (word_of_nat (length v))) (\<lambda>e2.
             upb_put_tag env e2 (number f) UPB_WIRE_TYPE_DELIMITED))) = Inr e'"
      by (auto simp: upb_encode_scalarfield.simps skip_def dest!: and_then_Inr read_stringview_Inr)
    show "(used e < used e') = (\<not> (skip \<and> is_zero_value (type f) fm)) \<and> (skip \<and> is_zero_value (type f) fm \<longrightarrow> e' = e)"
    proof (cases "skip \<and> v = []")
      case True
      with v show ?thesis by (simp add: is_zero_value_def)
    next
      case False
      with v ok_string [OF wf, of env v "number f" UPB_WIRE_TYPE_DELIMITED]
      show ?thesis by (auto simp: is_zero_value_def)
    qed
  next
    case UPB_DESCRIPTOR_TYPE_GROUP
    show "(used e < used e') = (\<not> (skip \<and> is_zero_value (type f) fm)) \<and> (skip \<and> is_zero_value (type f) fm \<longrightarrow> e' = e)"
    proof (cases fm)
      case (SubMsg submsg)
      show ?thesis
      proof (cases "skip \<and> submsg = None")
        case True
        with r SubMsg UPB_DESCRIPTOR_TYPE_GROUP show ?thesis
          by (auto simp: upb_encode_scalarfield.simps skip_def is_zero_value_def split: if_splits)
      next
        case False
        from r SubMsg UPB_DESCRIPTOR_TYPE_GROUP False
        obtain e1 e2 sz where e1: "upb_put_tag env e (number f) UPB_WIRE_TYPE_END_GROUP = Inr e1"
          and e2: "upb_encode_message env e1 submsg (submsgs m ! submsg_index f) = Inr (e2, sz)"
          and e3: "upb_put_tag env e2 (number f) UPB_WIRE_TYPE_START_GROUP = Inr e'"
          by (auto simp: upb_encode_scalarfield.simps skip_def split: if_splits sum.splits)
        from ok_put_tag1 [OF wf, of env "number f" UPB_WIRE_TYPE_END_GROUP] e1
        have w1: "wf_state e1" "Suc (used e) \<le> used e1" by simp_all
        from ok_encode(1) [OF w1(1), of env submsg "submsgs m ! submsg_index f"] e2
        have w2: "wf_state e2" "used e1 \<le> used e2" by simp_all
        from ok_put_tag1 [OF w2(1), of env "number f" UPB_WIRE_TYPE_START_GROUP] e3
        have "Suc (used e2) \<le> used e'" by simp
        with w1 w2 have "used e < used e'" by simp
        with False SubMsg show ?thesis by (auto simp: is_zero_value_def)
      qed
    qed (use r UPB_DESCRIPTOR_TYPE_GROUP in \<open>simp_all add: upb_encode_scalarfield.simps\<close>)
  next
    case UPB_DESCRIPTOR_TYPE_MESSAGE
    show "(used e < used e') = (\<not> (skip \<and> is_zero_value (type f) fm)) \<and> (skip \<and> is_zero_value (type f) fm \<longrightarrow> e' = e)"
    proof (cases fm)
      case (SubMsg submsg)
      show ?thesis
      proof (cases "skip \<and> submsg = None")
        case True
        with r SubMsg UPB_DESCRIPTOR_TYPE_MESSAGE show ?thesis
          by (auto simp: upb_encode_scalarfield.simps skip_def is_zero_value_def split: if_splits)
      next
        case False
        from r SubMsg UPB_DESCRIPTOR_TYPE_MESSAGE False
        obtain e1 n where e1: "upb_encode_message env e submsg (submsgs m ! submsg_index f) = Inr (e1, Some n)"
          and e2: "and_then (upb_put_varint env e1 (word_of_nat n)) (\<lambda>e2.
                     upb_put_tag env e2 (number f) UPB_WIRE_TYPE_DELIMITED) = Inr e'"
          by (auto simp: upb_encode_scalarfield.simps skip_def split: if_splits sum.splits option.splits)
        from ok_encode(1) [OF wf, of env submsg "submsgs m ! submsg_index f"] e1
        have w1: "wf_state e1" "used e \<le> used e1" by simp_all
        from ok_then_tag [OF w1(1), of env "\<lambda>e. upb_put_varint env e (word_of_nat n)" "number f" UPB_WIRE_TYPE_DELIMITED] pv e2
        have "Suc (used e1) \<le> used e'" by simp
        with w1 have "used e < used e'" by simp
        with False SubMsg show ?thesis by (auto simp: is_zero_value_def)
      qed
    qed (use r UPB_DESCRIPTOR_TYPE_MESSAGE in \<open>simp_all add: upb_encode_scalarfield.simps\<close>)
  qed
qed


lemma hasscalarfield_Inr:
  assumes "upb_encode_hasscalarfield msg m f = Inr has"
  shows "has = (case oneof_index f of
                  Some oi \<Rightarrow> case_mem msg (case_offset (oneofs m ! oi)) = number f
                | None \<Rightarrow> if is_proto2 m
                          then (case hasbit f of Some hb \<Rightarrow> bit (msg_bytes msg (hb div 8)) (hb mod 8) | None \<Rightarrow> False)
                          else True)"
  using assms
  by (auto simp: upb_encode_hasscalarfield_def upb_readcase_def upb_readhasbit_def
                 and_exp_eq_0_iff_not_bit
           split: option.splits if_splits sum.splits)

lemma scalarfield_skip:
  assumes "(p3 \<and> oneof_index f = None) \<and> is_zero_value (type f) fm"
  shows "upb_encode_scalarfield env e fm m f p3 = Inr e
       \<or> upb_encode_scalarfield env e fm m f p3 = Inl Undefined"
  using assms
  by (cases "type f"; cases fm)
     (auto simp: upb_encode_scalarfield.simps is_zero_value_def and_then_def CASE_def
        read_bits64_def read_bits32_def read_bool_def read_stringview_def)

lemma hasscalarfield_pure:
  "upb_encode_hasscalarfield msg m f \<noteq> Inl (AllocationFailure q old new)"
  by (auto simp: upb_encode_hasscalarfield_def upb_readcase_def upb_readhasbit_def
           split: option.splits sum.splits if_splits)

text \<open>One turn of the message loop for a singular field: what a success and what a
  failure say about the presence of the field.\<close>

lemma single_field_Inr:
  assumes "wf_state e" and "label f \<noteq> UPB_LABEL_REPEATED"
    and "upb_encode_message_fields env e msg m [f] = Inr e'"
  shows "(used e < used e') = field_present msg m f \<and> (\<not> field_present msg m f \<longrightarrow> e' = e)"
proof (cases "upb_encode_hasscalarfield msg m f")
  case (Inl err)
  with assms(2,3) show ?thesis by simp
next
  case (Inr has)
  note h = hasscalarfield_Inr [OF Inr]
  show ?thesis
  proof (cases has)
    case False
    with assms(2,3) Inr have "e' = e" by simp
    moreover from False h have "\<not> field_present msg m f"
      by (auto simp: field_present_def split: option.splits if_splits)
    ultimately show ?thesis by simp
  next
    case True
    with assms(2,3) Inr
    have r: "upb_encode_scalarfield env e (field_mem msg (offset f)) m f (\<not> is_proto2 m) = Inr e'"
      by (simp split: sum.splits)
    note em = scalarfield_emit [OF assms(1) r]
    have p: "field_present msg m f =
       (\<not> ((\<not> is_proto2 m \<and> oneof_index f = None) \<and> is_zero_value (type f) (field_mem msg (offset f))))"
      using True h by (auto simp: field_present_def split: option.splits if_splits)
    from em p show ?thesis by simp
  qed
qed

lemma single_field_fails:
  assumes "label f \<noteq> UPB_LABEL_REPEATED"
    and "upb_encode_message_fields env e msg m [f] = Inl (AllocationFailure q old new)"
  shows "field_present msg m f"
proof (cases "upb_encode_hasscalarfield msg m f")
  case (Inl err)
  with assms have "err = AllocationFailure q old new" by simp
  with Inl hasscalarfield_pure [of msg m f q old new] show ?thesis by simp
next
  case (Inr has)
  note h = hasscalarfield_Inr [OF Inr]
  from assms Inr have has: has by (cases has) simp_all
  with assms Inr
  have r: "upb_encode_scalarfield env e (field_mem msg (offset f)) m f (\<not> is_proto2 m)
             = Inl (AllocationFailure q old new)"
    by (simp split: sum.splits)
  from scalarfield_skip [of "\<not> is_proto2 m" f "field_mem msg (offset f)" env e m] r
  have "\<not> ((\<not> is_proto2 m \<and> oneof_index f = None) \<and> is_zero_value (type f) (field_mem msg (offset f)))"
    by auto
  with has h show ?thesis by (auto simp: field_present_def split: option.splits if_splits)
qed


text \<open>Claim C4. One turn of the message loop for a singular field \<open>f\<close>, from a state
  that satisfies the invariant. If it succeeds, it has appended bytes exactly when the
  field is present: a oneof member when the oneof's case equals its number, a proto2
  field outside a oneof when its hasbit is set (whatever its value), a proto3 field
  outside a oneof when its value is not the zero value of its type; when the field is
  not present the state is unchanged. If it fails, the field is present and the
  allocator denied the request for a larger block that the failure records. The
  behaviour is undefined only for a record that does not fit the layout at this field
  (no hasbit, a oneof index out of range, a slot of another type, a null message behind
  a set hasbit or a selected oneof member). So for a record that fits, with an allocator
  that grants every request for a larger block, the turn succeeds and emits bytes iff the
  field is present.\<close>

theorem singular_field_emitted_iff_present:
  assumes "wf_state e" and "label f \<noteq> UPB_LABEL_REPEATED"
  shows "(case upb_encode_message_fields env e msg m [f] of
            Inr e' \<Rightarrow>
              (used e < used e') = field_present msg m f \<and> (\<not> field_present msg m f \<longrightarrow> e' = e)
          | Inl (AllocationFailure q old new) \<Rightarrow>
              field_present msg m f \<and> env q old new = 0 \<and> old < new
          | Inl Undefined \<Rightarrow> \<not> field_ok m msg f)
       \<and> (field_ok m msg f \<and> (\<forall>q old new. old < new \<longrightarrow> env q old new \<noteq> 0) \<longrightarrow>
            (\<exists>e'. upb_encode_message_fields env e msg m [f] = Inr e'
                 \<and> (used e < used e') = field_present msg m f))"
proof -
  let ?r = "upb_encode_message_fields env e msg m [f]"
  have ok: "ok_res env (used e) ?r" by (rule ok_encode(2) [OF assms(1)])
  have df: "?r \<noteq> Inl Undefined" if "field_ok m msg f"
    by (rule defined_encode(2)) (simp add: that)
  have main: "case ?r of
            Inr e' \<Rightarrow>
              (used e < used e') = field_present msg m f \<and> (\<not> field_present msg m f \<longrightarrow> e' = e)
          | Inl (AllocationFailure q old new) \<Rightarrow>
              field_present msg m f \<and> env q old new = 0 \<and> old < new
          | Inl Undefined \<Rightarrow> \<not> field_ok m msg f"
  proof (cases ?r)
    case (Inr e')
    from single_field_Inr [OF assms Inr] Inr show ?thesis by simp
  next
    case (Inl err)
    show ?thesis
    proof (cases err)
      case (AllocationFailure q old new)
      with Inl have r: "?r = Inl (AllocationFailure q old new)" by simp
      from ok r have "env q old new = 0 \<and> old < new" by (simp add: ok_res_def)
      with single_field_fails [OF assms(2) r] r show ?thesis by simp
    next
      case Undefined
      with Inl df show ?thesis by auto
    qed
  qed
  have tot: "\<exists>e'. ?r = Inr e' \<and> (used e < used e') = field_present msg m f"
    if fo: "field_ok m msg f" and gr: "\<forall>q old new. old < new \<longrightarrow> env q old new \<noteq> 0"
  proof (cases ?r)
    case (Inr e')
    with single_field_Inr [OF assms Inr] show ?thesis by simp
  next
    case (Inl err)
    show ?thesis
    proof (cases err)
      case (AllocationFailure q old new)
      with Inl ok have "env q old new = 0 \<and> old < new" by (simp add: ok_res_def)
      with gr show ?thesis by blast
    next
      case Undefined
      with Inl df [OF fo] show ?thesis by simp
    qed
  qed
  from main tot show ?thesis by blast
qed

lemmas ex_field_defs = ex_inner_layout_def ex_inner_msg_def ex_zero_msg_def
  ex_proto2_layout_def ex_proto2_msg_def ex_oneof_layout_def ex_oneof_msg_def

theorem singular_field_emitted_iff_present_witness:
  "wf_state \<lparr>heap = (\<lambda>a. 0), buf = 0, ptr = 0, limit = 0\<rparr>
   \<and> field_ok ex_inner_layout ex_inner_msg (hd (fields ex_inner_layout))
   \<and> field_present ex_inner_msg ex_inner_layout (hd (fields ex_inner_layout))
   \<and> (\<exists>e'. upb_encode_message_fields env_bump \<lparr>heap = (\<lambda>a. 0), buf = 0, ptr = 0, limit = 0\<rparr>
               ex_inner_msg ex_inner_layout [hd (fields ex_inner_layout)] = Inr e'
            \<and> 0 < used e' \<and> written e' = [0x08, 0x01])
   \<and> field_ok ex_inner_layout ex_zero_msg (hd (fields ex_inner_layout))
   \<and> \<not> field_present ex_zero_msg ex_inner_layout (hd (fields ex_inner_layout))
   \<and> upb_encode_message_fields env_bump \<lparr>heap = (\<lambda>a. 0), buf = 0, ptr = 0, limit = 0\<rparr>
               ex_zero_msg ex_inner_layout [hd (fields ex_inner_layout)]
         = Inr \<lparr>heap = (\<lambda>a. 0), buf = 0, ptr = 0, limit = 0\<rparr>
   \<and> field_ok ex_proto2_layout (ex_proto2_msg 0 True) (hd (fields ex_proto2_layout))
   \<and> field_present (ex_proto2_msg 0 True) ex_proto2_layout (hd (fields ex_proto2_layout))
   \<and> (\<exists>e'. upb_encode_message_fields env_bump \<lparr>heap = (\<lambda>a. 0), buf = 0, ptr = 0, limit = 0\<rparr>
               (ex_proto2_msg 0 True) ex_proto2_layout [hd (fields ex_proto2_layout)] = Inr e'
            \<and> 0 < used e' \<and> written e' = [0x08, 0x00])
   \<and> field_ok ex_proto2_layout (ex_proto2_msg 5 False) (hd (fields ex_proto2_layout))
   \<and> \<not> field_present (ex_proto2_msg 5 False) ex_proto2_layout (hd (fields ex_proto2_layout))
   \<and> upb_encode_message_fields env_bump \<lparr>heap = (\<lambda>a. 0), buf = 0, ptr = 0, limit = 0\<rparr>
               (ex_proto2_msg 5 False) ex_proto2_layout [hd (fields ex_proto2_layout)]
         = Inr \<lparr>heap = (\<lambda>a. 0), buf = 0, ptr = 0, limit = 0\<rparr>
   \<and> field_ok ex_oneof_layout (ex_oneof_msg 0 1) (hd (fields ex_oneof_layout))
   \<and> field_present (ex_oneof_msg 0 1) ex_oneof_layout (hd (fields ex_oneof_layout))
   \<and> (\<exists>e'. upb_encode_message_fields env_bump \<lparr>heap = (\<lambda>a. 0), buf = 0, ptr = 0, limit = 0\<rparr>
               (ex_oneof_msg 0 1) ex_oneof_layout [hd (fields ex_oneof_layout)] = Inr e'
            \<and> 0 < used e' \<and> written e' = [0x08, 0x00])
   \<and> field_ok ex_oneof_layout (ex_oneof_msg 5 2) (hd (fields ex_oneof_layout))
   \<and> \<not> field_present (ex_oneof_msg 5 2) ex_oneof_layout (hd (fields ex_oneof_layout))
   \<and> upb_encode_message_fields env_bump \<lparr>heap = (\<lambda>a. 0), buf = 0, ptr = 0, limit = 0\<rparr>
               (ex_oneof_msg 5 2) ex_oneof_layout [hd (fields ex_oneof_layout)]
         = Inr \<lparr>heap = (\<lambda>a. 0), buf = 0, ptr = 0, limit = 0\<rparr>"
proof -
  let ?e = "\<lparr>heap = (\<lambda>a. 0), buf = 0, ptr = 0, limit = 0\<rparr>"
  have wf: "wf_state ?e" by (rule wf_state_init)
  have gr: "\<forall>q old new. old < new \<longrightarrow> env_bump q old new \<noteq> 0" by (simp add: env_bump_def)
  have u0: "used ?e = 0" by (simp add: used_def)
  note turn = singular_field_emitted_iff_present [OF wf, where env = env_bump]
  txt \<open>proto3: emitted iff the value is not zero\<close>
  have l3: "label (hd (fields ex_inner_layout)) \<noteq> UPB_LABEL_REPEATED"
    by (simp add: ex_field_defs)
  have o3a: "field_ok ex_inner_layout ex_inner_msg (hd (fields ex_inner_layout))"
    and o3b: "field_ok ex_inner_layout ex_zero_msg (hd (fields ex_inner_layout))"
    by (simp_all add: fit_defs ex_field_defs)
  have p3a: "field_present ex_inner_msg ex_inner_layout (hd (fields ex_inner_layout))"
    and p3b: "\<not> field_present ex_zero_msg ex_inner_layout (hd (fields ex_inner_layout))"
    by (simp_all add: field_present_def is_zero_value_def ex_field_defs)
  have w3a: "\<exists>e'. upb_encode_message_fields env_bump ?e ex_inner_msg ex_inner_layout
                    [hd (fields ex_inner_layout)] = Inr e' \<and> written e' = [0x08, 0x01]"
    by (simp add: eval_defs ex_field_defs written_def)
  have a3: "\<exists>e'. upb_encode_message_fields env_bump ?e ex_inner_msg ex_inner_layout
                    [hd (fields ex_inner_layout)] = Inr e' \<and> 0 < used e' \<and> written e' = [0x08, 0x01]"
    using turn [OF l3, of ex_inner_msg ex_inner_layout] o3a gr p3a w3a u0 by auto
  have b3: "upb_encode_message_fields env_bump ?e ex_zero_msg ex_inner_layout
                    [hd (fields ex_inner_layout)] = Inr ?e"
    using turn [OF l3, of ex_zero_msg ex_inner_layout] o3b gr p3b by auto
  txt \<open>proto2: emitted iff the hasbit is set\<close>
  have l2: "label (hd (fields ex_proto2_layout)) \<noteq> UPB_LABEL_REPEATED"
    by (simp add: ex_field_defs)
  have o2a: "field_ok ex_proto2_layout (ex_proto2_msg 0 True) (hd (fields ex_proto2_layout))"
    and o2b: "field_ok ex_proto2_layout (ex_proto2_msg 5 False) (hd (fields ex_proto2_layout))"
    by (simp_all add: fit_defs ex_field_defs)
  have p2a: "field_present (ex_proto2_msg 0 True) ex_proto2_layout (hd (fields ex_proto2_layout))"
    and p2b: "\<not> field_present (ex_proto2_msg 5 False) ex_proto2_layout (hd (fields ex_proto2_layout))"
    by (simp_all add: field_present_def is_zero_value_def ex_field_defs)
  have w2a: "\<exists>e'. upb_encode_message_fields env_bump ?e (ex_proto2_msg 0 True) ex_proto2_layout
                    [hd (fields ex_proto2_layout)] = Inr e' \<and> written e' = [0x08, 0x00]"
    by (simp add: eval_defs upb_readhasbit_def ex_field_defs written_def)
  have a2: "\<exists>e'. upb_encode_message_fields env_bump ?e (ex_proto2_msg 0 True) ex_proto2_layout
                    [hd (fields ex_proto2_layout)] = Inr e' \<and> 0 < used e' \<and> written e' = [0x08, 0x00]"
    using turn [OF l2, of "ex_proto2_msg 0 True" ex_proto2_layout] o2a gr p2a w2a u0 by auto
  have b2: "upb_encode_message_fields env_bump ?e (ex_proto2_msg 5 False) ex_proto2_layout
                    [hd (fields ex_proto2_layout)] = Inr ?e"
    using turn [OF l2, of "ex_proto2_msg 5 False" ex_proto2_layout] o2b gr p2b by auto
  txt \<open>oneof: emitted iff the case is the number of the field\<close>
  have l1: "label (hd (fields ex_oneof_layout)) \<noteq> UPB_LABEL_REPEATED"
    by (simp add: ex_field_defs)
  have o1a: "field_ok ex_oneof_layout (ex_oneof_msg 0 1) (hd (fields ex_oneof_layout))"
    and o1b: "field_ok ex_oneof_layout (ex_oneof_msg 5 2) (hd (fields ex_oneof_layout))"
    by (simp_all add: fit_defs ex_field_defs)
  have p1a: "field_present (ex_oneof_msg 0 1) ex_oneof_layout (hd (fields ex_oneof_layout))"
    and p1b: "\<not> field_present (ex_oneof_msg 5 2) ex_oneof_layout (hd (fields ex_oneof_layout))"
    by (simp_all add: field_present_def is_zero_value_def ex_field_defs)
  have w1a: "\<exists>e'. upb_encode_message_fields env_bump ?e (ex_oneof_msg 0 1) ex_oneof_layout
                    [hd (fields ex_oneof_layout)] = Inr e' \<and> written e' = [0x08, 0x00]"
    by (simp add: eval_defs upb_readcase_def ex_field_defs written_def)
  have a1: "\<exists>e'. upb_encode_message_fields env_bump ?e (ex_oneof_msg 0 1) ex_oneof_layout
                    [hd (fields ex_oneof_layout)] = Inr e' \<and> 0 < used e' \<and> written e' = [0x08, 0x00]"
    using turn [OF l1, of "ex_oneof_msg 0 1" ex_oneof_layout] o1a gr p1a w1a u0 by auto
  have b1: "upb_encode_message_fields env_bump ?e (ex_oneof_msg 5 2) ex_oneof_layout
                    [hd (fields ex_oneof_layout)] = Inr ?e"
    using turn [OF l1, of "ex_oneof_msg 5 2" ex_oneof_layout] o1b gr p1b by auto
  show ?thesis
    by (intro conjI wf o3a p3a a3 o3b p3b b3 o2a p2a a2 o2b p2b b2 o1a p1a a1 o1b p1b b1)
qed


subsection \<open>Output after growth\<close>

text \<open>Claim C5 (the records of the fields stand in declaration order), evaluated on the
  code. With a 3-byte string the output is the three records in declaration order:
  \<open>0A 03 41 41 41\<close>, \<open>10 02\<close>, \<open>18 03\<close>. With a 120-byte string the records of fields 3 and
  2 are written first (4 bytes), the string fills the 128-byte buffer up to 4 bytes, and
  the reservation for its length prefix grows the buffer: the 124 bytes written so far
  are not carried over. The output is \<open>0A 78\<close> and 124 zero bytes; the records of fields 2
  and 3 are not in it.\<close>

theorem field_order_lost_after_growth:
  "upb_encode env_bump (\<lambda>a. 0) (Some (ex_order_msg 3)) ex_order_layout
     = Inr (Ptr 4215, 9, [0x0A, 0x03, 0x41, 0x41, 0x41, 0x10, 0x02, 0x18, 0x03])
   \<and> upb_encode env_bump (\<lambda>a. 0) (Some (ex_order_msg 120)) ex_order_layout
     = Inr (Ptr 4354, 126, [0x0A, 0x78] @ replicate 124 0x00)"
  apply (simp add: eval_defs ex_order_msg_def ex_order_layout_def)
  apply (simp add: eval_nat_numeral)
  done

text \<open>Claim C6 (a repeated varint field is one packed record: tag, run length, the
  elements' varints in array order), evaluated on the code. For the array \<open>[1, 300]\<close>
  beside a 2-byte string the record is \<open>0A 03 01 AC 02\<close>. Beside a 116-byte string the
  varint of 300 is written into the last free bytes of the 128-byte buffer and the
  reservation for the varint of 1 grows the buffer: the record is \<open>0A 03 01 00 00\<close>, with
  the right tag and run length but not the varint of 300 (and the string's record after
  it is lost too).\<close>

theorem packed_run_lost_after_growth:
  "upb_encode env_bump (\<lambda>a. 0) (Some (ex_packed_msg [1, 300] 2)) ex_packed_layout
     = Inr (Ptr 4215, 9, [0x0A, 0x03, 0x01, 0xAC, 0x02, 0x12, 0x02, 0x41, 0x41])
   \<and> upb_encode env_bump (\<lambda>a. 0) (Some (ex_packed_msg [1, 300] 116)) ex_packed_layout
     = Inr (Ptr 4357, 123, [0x0A, 0x03, 0x01] @ replicate 120 0x00)"
  apply (simp add: eval_defs ex_packed_msg_def ex_packed_layout_def)
  apply (simp add: eval_nat_numeral)
  done

end
